theory Spec2Isabelle
  imports Main "HOL-Library.Word"
begin

unbundle bit_operations_syntax

section \<open>Buffers and errors\<close>

text \<open>
  A Node.js \<open>Buffer\<close> is a list of bytes. JavaScript numbers and bigints that hold
  integers are modelled as \<open>int\<close>; buffer offsets and lengths, which the code only ever
  increases from \<open>0\<close>, as \<open>nat\<close>. Every exception the code can raise is a value of
  \<open>error\<close>, returned on the left of a sum.
\<close>

type_synonym byte = "8 word"
type_synonym bytes = "byte list"

datatype error =
    RangeError        \<comment> \<open>thrown by Buffer reads and writes out of range\<close>
  | TypeError         \<comment> \<open>property access on \<open>undefined\<close>\<close>
  | VarIntTooLarge    \<comment> \<open>\<open>new Error('VarInt too large')\<close>\<close>
  | InvalidPrivateKey \<comment> \<open>\<open>new Error('Invalid private key')\<close>\<close>
  | FailedDerive      \<comment> \<open>\<open>new Error('Failed to derive public key')\<close>\<close>
  | FailedSignature   \<comment> \<open>\<open>new Error('Failed to create signature')\<close>\<close>
  | LibraryError      \<comment> \<open>an exception raised inside an imported package\<close>

definition bindE :: "error + 'a \<Rightarrow> ('a \<Rightarrow> error + 'b) \<Rightarrow> error + 'b" where
  "bindE m f = (case m of Inl e \<Rightarrow> Inl e | Inr x \<Rightarrow> f x)"

subsection \<open>Little-endian integers\<close>

fun le_nat :: "bytes \<Rightarrow> nat" where
  "le_nat [] = 0"
| "le_nat (b # bs) = unat b + 256 * le_nat bs"

fun le_bytes :: "nat \<Rightarrow> nat \<Rightarrow> bytes" where
  "le_bytes 0 n = []"
| "le_bytes (Suc k) n = of_nat (n mod 256) # le_bytes k (n div 256)"

text \<open>\<open>buf.slice(a, b)\<close> (here \<open>slice_buf\<close>): clamped to the buffer, never an error.\<close>

definition slice_buf :: "bytes \<Rightarrow> nat \<Rightarrow> nat \<Rightarrow> bytes" where
  "slice_buf buf a b = take (b - a) (drop a buf)"

text \<open>\<open>buf[i]\<close>: \<open>undefined\<close> (here \<open>None\<close>) outside the buffer.\<close>

definition byte_at :: "bytes \<Rightarrow> nat \<Rightarrow> byte option" where
  "byte_at buf i = (if i < length buf then Some (buf ! i) else None)"

text \<open>The fixed-width reads throw a RangeError when the field does not fit.\<close>

definition readUIntLE :: "nat \<Rightarrow> bytes \<Rightarrow> nat \<Rightarrow> error + nat" where
  "readUIntLE w buf offset =
     (if offset + w \<le> length buf then Inr (le_nat (take w (drop offset buf)))
      else Inl RangeError)"

definition signed_of :: "nat \<Rightarrow> nat \<Rightarrow> int" where
  "signed_of w u = (if u < 2 ^ (8 * w - 1) then int u else int u - 2 ^ (8 * w))"

definition readUInt16LE :: "bytes \<Rightarrow> nat \<Rightarrow> error + int" where
  "readUInt16LE buf offset = bindE (readUIntLE 2 buf offset) (\<lambda>u. Inr (int u))"

definition readUInt32LE :: "bytes \<Rightarrow> nat \<Rightarrow> error + int" where
  "readUInt32LE buf offset = bindE (readUIntLE 4 buf offset) (\<lambda>u. Inr (int u))"

definition readInt32LE :: "bytes \<Rightarrow> nat \<Rightarrow> error + int" where
  "readInt32LE buf offset = bindE (readUIntLE 4 buf offset) (\<lambda>u. Inr (signed_of 4 u))"

definition readBigInt64LE :: "bytes \<Rightarrow> nat \<Rightarrow> error + int" where
  "readBigInt64LE buf offset = bindE (readUIntLE 8 buf offset) (\<lambda>u. Inr (signed_of 8 u))"

text \<open>
  The writes are always applied to a fresh \<open>Buffer.alloc(w)\<close> at offset 0 (or to the
  last four bytes just appended), so each is modelled as the function returning the
  \<open>w\<close> bytes written. They throw a RangeError on a value outside the field's range.
\<close>

definition writeUInt16LE :: "int \<Rightarrow> error + bytes" where
  "writeUInt16LE v = (if 0 \<le> v \<and> v \<le> 0xffff then Inr (le_bytes 2 (nat v)) else Inl RangeError)"

definition writeUInt32LE :: "int \<Rightarrow> error + bytes" where
  "writeUInt32LE v =
     (if 0 \<le> v \<and> v \<le> 0xffffffff then Inr (le_bytes 4 (nat v)) else Inl RangeError)"

definition writeInt32LE :: "int \<Rightarrow> error + bytes" where
  "writeInt32LE v =
     (if - (2 ^ 31) \<le> v \<and> v < 2 ^ 31 then Inr (le_bytes 4 (nat (v mod 2 ^ 32)))
      else Inl RangeError)"

definition writeBigInt64LE :: "int \<Rightarrow> error + bytes" where
  "writeBigInt64LE v =
     (if - (2 ^ 63) \<le> v \<and> v < 2 ^ 63 then Inr (le_bytes 8 (nat (v mod 2 ^ 64)))
      else Inl RangeError)"

section \<open>VarInt codec\<close>

text \<open>
  \<open>readVarInt\<close>: when \<open>buffer[offset]\<close> is \<open>undefined\<close> every comparison of the
  chain is false, so control reaches the last branch, whose read then throws.
\<close>

definition readVarInt :: "bytes \<Rightarrow> nat \<Rightarrow> error + (int \<times> nat)" where
  "readVarInt buffer offset =
     (case byte_at buffer offset of
        Some first \<Rightarrow>
          if first < 0xfd then Inr (uint first, offset + 1)
          else if first = 0xfd then
            bindE (readUInt16LE buffer (offset + 1)) (\<lambda>v. Inr (v, offset + 3))
          else if first = 0xfe then
            bindE (readUInt32LE buffer (offset + 1)) (\<lambda>v. Inr (v, offset + 5))
          else
            bindE (readUInt32LE buffer (offset + 1)) (\<lambda>v. Inr (v, offset + 9))
      | None \<Rightarrow> bindE (readUInt32LE buffer (offset + 1)) (\<lambda>v. Inr (v, offset + 9)))"

text \<open>
  \<open>writeVarInt\<close>: \<open>Buffer.from([value])\<close> stores the value modulo 256, which is the
  value itself in the branch where it is used with a length.
\<close>

definition writeVarInt :: "int \<Rightarrow> error + bytes" where
  "writeVarInt v =
     (if v < 0xfd then Inr [word_of_int v]
      else if v \<le> 0xffff then bindE (writeUInt16LE v) (\<lambda>b. Inr (0xfd # b))
      else if v \<le> 0xffffffff then bindE (writeUInt32LE v) (\<lambda>b. Inr (0xfe # b))
      else Inl VarIntTooLarge)"

section \<open>Hex strings\<close>

text \<open>
  \<open>buf.toString('hex')\<close> writes two lower-case digits per byte.
  \<open>Buffer.from(s, 'hex')\<close> decodes pairs of hex digits of either case and stops,
  without an error, at the first pair that is not two hex digits (or at a single
  trailing character).
\<close>

definition hex_digit :: "nat \<Rightarrow> char" where
  "hex_digit n = ''0123456789abcdef'' ! n"

definition hex_value :: "char \<Rightarrow> nat option" where
  "hex_value c =
     (let n = (of_char c :: nat) in
      if 48 \<le> n \<and> n \<le> 57 then Some (n - 48)
      else if 97 \<le> n \<and> n \<le> 102 then Some (n - 87)
      else if 65 \<le> n \<and> n \<le> 70 then Some (n - 55)
      else None)"

definition toString_hex :: "bytes \<Rightarrow> string" where
  "toString_hex bs = concat (map (\<lambda>b. [hex_digit (unat b div 16), hex_digit (unat b mod 16)]) bs)"

fun Buffer_from_hex :: "string \<Rightarrow> bytes" where
  "Buffer_from_hex (a # b # rest) =
     (case (hex_value a, hex_value b) of
        (Some h, Some l) \<Rightarrow> of_nat (16 * h + l) # Buffer_from_hex rest
      | _ \<Rightarrow> [])"
| "Buffer_from_hex _ = []"

section \<open>Transaction codec\<close>

record tx_input =
  txid :: bytes
  vout :: int
  scriptSig :: bytes
  sequence :: int

record tx_output =
  out_value :: int   \<comment> \<open>the field \<open>value\<close> of the source\<close>
  scriptPubKey :: bytes

record transaction =
  version :: int
  versionGroupId :: int
  inputs :: "tx_input list"
  outputs :: "tx_output list"
  lockTime :: int
  expiryHeight :: int
  valueBalance :: int
  raw :: bytes

text \<open>
  JavaScript's \<open>a & b\<close> on integer-valued numbers: both operands are reduced to 32
  bits and the result is read as a signed 32-bit integer.
\<close>

definition js_bitand :: "int \<Rightarrow> int \<Rightarrow> int" where
  "js_bitand a b = sint ((word_of_int a :: 32 word) AND word_of_int b)"

text \<open>
  The two loops of \<open>parseTransaction\<close>, by recursion on the number of iterations
  left. Each returns the items pushed and the offset reached.
\<close>

fun parse_inputs :: "bytes \<Rightarrow> nat \<Rightarrow> nat \<Rightarrow> error + (tx_input list \<times> nat)" where
  "parse_inputs buffer offset 0 = Inr ([], offset)"
| "parse_inputs buffer offset (Suc n) =
     (let txid = slice_buf buffer offset (offset + 32) in
      bindE (readUInt32LE buffer (offset + 32)) (\<lambda>vout.
      bindE (readVarInt buffer (offset + 32 + 4)) (\<lambda>(scriptLen, offset).
      let scriptSig = slice_buf buffer offset (offset + nat scriptLen) in
      bindE (readUInt32LE buffer (offset + nat scriptLen)) (\<lambda>sequence.
      bindE (parse_inputs buffer (offset + nat scriptLen + 4) n) (\<lambda>(rest, offset).
      Inr (\<lparr>txid = txid, vout = vout, scriptSig = scriptSig, sequence = sequence\<rparr> # rest,
           offset))))))"

fun parse_outputs :: "bytes \<Rightarrow> nat \<Rightarrow> nat \<Rightarrow> error + (tx_output list \<times> nat)" where
  "parse_outputs buffer offset 0 = Inr ([], offset)"
| "parse_outputs buffer offset (Suc n) =
     bindE (readBigInt64LE buffer offset) (\<lambda>v.
     bindE (readVarInt buffer (offset + 8)) (\<lambda>(scriptLen, offset).
     let scriptPubKey = slice_buf buffer offset (offset + nat scriptLen) in
     bindE (parse_outputs buffer (offset + nat scriptLen) n) (\<lambda>(rest, offset).
     Inr (\<lparr>out_value = v, scriptPubKey = scriptPubKey\<rparr> # rest, offset))))"

text \<open>
  The body of \<open>parseTransaction\<close> on the decoded buffer. Besides the transaction it
  returns the final value of the local variable \<open>offset\<close>, which the source drops.
  The decoded buffer (the source's local \<open>raw\<close>) is the parameter \<open>buffer\<close>.
\<close>

definition parse_from :: "bytes \<Rightarrow> error + (transaction \<times> nat)" where
  "parse_from buffer =
     bindE (readInt32LE buffer 0) (\<lambda>version.
     bindE (if js_bitand version 0x80000000 \<noteq> 0
            then bindE (readUInt32LE buffer 4) (\<lambda>g. Inr (g, 4 + 4))
            else Inr (0, 4)) (\<lambda>(versionGroupId, offset).
     bindE (readVarInt buffer offset) (\<lambda>(inputCount, offset).
     bindE (parse_inputs buffer offset (nat inputCount)) (\<lambda>(inputs, offset).
     bindE (readVarInt buffer offset) (\<lambda>(outputCount, offset).
     bindE (parse_outputs buffer offset (nat outputCount)) (\<lambda>(outputs, offset).
     bindE (readUInt32LE buffer offset) (\<lambda>lockTime.
     bindE (if version \<ge> 3 \<or> js_bitand version 0x80000000 \<noteq> 0
            then bindE (readUInt32LE buffer (offset + 4)) (\<lambda>e. Inr (e, offset + 4 + 4))
            else Inr (0, offset + 4)) (\<lambda>(expiryHeight, offset).
     bindE (if js_bitand version 0x80000000 \<noteq> 0 \<and> versionGroupId = 0x892f2085
            then bindE (readBigInt64LE buffer offset) (\<lambda>b. Inr (b, offset + 8))
            else Inr (0, offset)) (\<lambda>(valueBalance, offset).
     Inr (\<lparr>version = version, versionGroupId = versionGroupId, inputs = inputs,
            outputs = outputs, lockTime = lockTime, expiryHeight = expiryHeight,
            valueBalance = valueBalance, raw = buffer\<rparr>, offset))))))))))"

definition parseTransaction :: "string \<Rightarrow> error + transaction" where
  "parseTransaction txHex = bindE (parse_from (Buffer_from_hex txHex)) (\<lambda>(tx, offset). Inr tx)"

text \<open>
  \<open>rebuildTransaction\<close> pushes buffers onto \<open>parts\<close> and concatenates them; the
  model returns the concatenation. The two loops go over the inputs and outputs
  in order.
\<close>

definition rebuild_input :: "tx_input \<Rightarrow> error + bytes" where
  "rebuild_input input =
     bindE (writeUInt32LE (vout input)) (\<lambda>voutBuf.
     bindE (writeVarInt (int (length (scriptSig input)))) (\<lambda>len.
     bindE (writeUInt32LE (sequence input)) (\<lambda>seqBuf.
     Inr (txid input @ voutBuf @ len @ scriptSig input @ seqBuf))))"

fun rebuild_inputs :: "tx_input list \<Rightarrow> error + bytes" where
  "rebuild_inputs [] = Inr []"
| "rebuild_inputs (input # rest) =
     bindE (rebuild_input input) (\<lambda>b. bindE (rebuild_inputs rest) (\<lambda>bs. Inr (b @ bs)))"

definition rebuild_output :: "tx_output \<Rightarrow> error + bytes" where
  "rebuild_output output =
     bindE (writeBigInt64LE (out_value output)) (\<lambda>valueBuf.
     bindE (writeVarInt (int (length (scriptPubKey output)))) (\<lambda>len.
     Inr (valueBuf @ len @ scriptPubKey output)))"

fun rebuild_outputs :: "tx_output list \<Rightarrow> error + bytes" where
  "rebuild_outputs [] = Inr []"
| "rebuild_outputs (output # rest) =
     bindE (rebuild_output output) (\<lambda>b. bindE (rebuild_outputs rest) (\<lambda>bs. Inr (b @ bs)))"

definition rebuild_bytes :: "transaction \<Rightarrow> error + bytes" where
  "rebuild_bytes tx =
     bindE (writeInt32LE (version tx)) (\<lambda>versionBuf.
     bindE (if js_bitand (version tx) 0x80000000 \<noteq> 0
            then writeUInt32LE (versionGroupId tx) else Inr []) (\<lambda>vgBuf.
     bindE (writeVarInt (int (length (inputs tx)))) (\<lambda>inputCount.
     bindE (rebuild_inputs (inputs tx)) (\<lambda>ins.
     bindE (writeVarInt (int (length (outputs tx)))) (\<lambda>outputCount.
     bindE (rebuild_outputs (outputs tx)) (\<lambda>outs.
     bindE (writeUInt32LE (lockTime tx)) (\<lambda>lockTimeBuf.
     bindE (if version tx \<ge> 3 \<or> js_bitand (version tx) 0x80000000 \<noteq> 0
            then writeUInt32LE (expiryHeight tx) else Inr []) (\<lambda>expiryBuf.
     bindE (if js_bitand (version tx) 0x80000000 \<noteq> 0 \<and> versionGroupId tx = 0x892f2085
            then bindE (writeBigInt64LE (valueBalance tx)) (\<lambda>valueBuf.
                 bindE (writeVarInt 0) (\<lambda>s1.
                 bindE (writeVarInt 0) (\<lambda>s2.
                 bindE (writeVarInt 0) (\<lambda>s3. Inr (valueBuf @ s1 @ s2 @ s3)))))
            else Inr []) (\<lambda>sapling.
     Inr (versionBuf @ vgBuf @ inputCount @ ins @ outputCount @ outs @ lockTimeBuf
          @ expiryBuf @ sapling))))))))))"

definition rebuildTransaction :: "transaction \<Rightarrow> error + string" where
  "rebuildTransaction tx = bindE (rebuild_bytes tx) (\<lambda>b. Inr (toString_hex b))"


section \<open>Imported packages\<close>

text \<open>
  The functions that the code takes from npm packages are parameters of the model,
  collected in one record. A function that can throw returns a sum; one that can
  return \<open>null\<close> an option.
  \<^item> \<open>blake2b data personalization\<close> is \<open>blake2b(data, {dkLen: 32, personalization})\<close>
    of \<open>@noble/hashes\<close>, reached through a dynamic import inside a \<open>try\<close>; \<open>None\<close>
    stands for every way the \<open>try\<close> block can throw (the import fails, or the
    function rejects its arguments).
  \<^item> \<open>sha256 data\<close> is \<open>createHash('sha256').update(data).digest()\<close>.
  \<^item> \<open>bs58check_decode\<close> and \<open>bs58check_encode\<close> are \<open>bs58check.decode\<close> and
    \<open>bs58check.encode\<close>.
  \<^item> \<open>isPrivate\<close>, \<open>pointFromScalar\<close> and \<open>sign\<close> are those of \<open>tiny-secp256k1\<close>.
\<close>

record libs =
  blake2b :: "bytes \<Rightarrow> bytes \<Rightarrow> bytes option"
  sha256 :: "bytes \<Rightarrow> bytes"
  bs58check_decode :: "string \<Rightarrow> error + bytes"
  bs58check_encode :: "bytes \<Rightarrow> string"
  isPrivate :: "bytes \<Rightarrow> bool"
  pointFromScalar :: "bytes \<Rightarrow> bool \<Rightarrow> error + bytes option"
  sign :: "bytes \<Rightarrow> bytes \<Rightarrow> error + bytes option"

section \<open>Strings as buffers\<close>

text \<open>
  A JavaScript string is a list of UTF-16 code units. \<open>Buffer.from(s)\<close> encodes
  it in UTF-8: one byte below \<open>0x80\<close>, two bytes below \<open>0x800\<close>, three bytes
  otherwise (surrogate pairs do not occur in the strings of this code).
\<close>

definition js_string :: "string \<Rightarrow> nat list" where
  "js_string s = map of_char s"

definition utf8_unit :: "nat \<Rightarrow> bytes" where
  "utf8_unit c =
     (if c < 0x80 then [of_nat c]
      else if c < 0x800 then [of_nat (0xc0 + c div 64), of_nat (0x80 + c mod 64)]
      else [of_nat (0xe0 + c div 4096), of_nat (0x80 + c div 64 mod 64), of_nat (0x80 + c mod 64)])"

definition Buffer_from_string :: "nat list \<Rightarrow> bytes" where
  "Buffer_from_string s = concat (map utf8_unit s)"

section \<open>Sighash engine\<close>

definition SIGHASH_ALL :: int where
  "SIGHASH_ALL = 0x01"

definition CONSENSUS_BRANCH_ID :: int where
  "CONSENSUS_BRANCH_ID = 0x76b809bb"

text \<open>
  \<open>blake2b256\<close> returns the digest together with the lines it wrote with
  \<open>console.warn\<close>.
\<close>

definition fallback_warning :: string where
  "fallback_warning = ''[Signer] BLAKE2b not available, using SHA256 fallback''"

definition blake2b256 :: "'a libs_scheme \<Rightarrow> bytes \<Rightarrow> bytes \<Rightarrow> bytes \<times> string list" where
  "blake2b256 L data personalization =
     (case blake2b L data personalization of
        Some digest \<Rightarrow> (digest, [])
      | None \<Rightarrow> (sha256 L data, [fallback_warning]))"

text \<open>The three loops of \<open>createSighashV4\<close> that collect the data of the sub-hashes.\<close>

fun prevoutsData :: "tx_input list \<Rightarrow> error + bytes" where
  "prevoutsData [] = Inr []"
| "prevoutsData (input # rest) =
     bindE (writeUInt32LE (vout input)) (\<lambda>v.
     bindE (prevoutsData rest) (\<lambda>d. Inr (txid input @ v @ d)))"

fun sequenceData :: "tx_input list \<Rightarrow> error + bytes" where
  "sequenceData [] = Inr []"
| "sequenceData (input # rest) =
     bindE (writeUInt32LE (sequence input)) (\<lambda>seqBuf.
     bindE (sequenceData rest) (\<lambda>d. Inr (seqBuf @ d)))"

fun outputsData :: "tx_output list \<Rightarrow> error + bytes" where
  "outputsData [] = Inr []"
| "outputsData (output # rest) =
     bindE (writeBigInt64LE (out_value output)) (\<lambda>valueBuf.
     bindE (writeVarInt (int (length (scriptPubKey output)))) (\<lambda>len.
     bindE (outputsData rest) (\<lambda>d. Inr (valueBuf @ len @ scriptPubKey output @ d))))"

text \<open>The personalization of the final hash, as the code builds it.\<close>

definition sighash_personalization :: bytes where
  "sighash_personalization =
     Buffer_from_string (js_string ''ZcashSigHash'' @ [0x19, 0x1b, 0xa8, 0x5b])"

text \<open>
  \<open>tx.inputs[inputIndex]\<close> is \<open>undefined\<close> outside the list; the first property
  read on it, \<open>input.sequence\<close>, then throws a TypeError. The result carries the
  warnings of the four hash calls.
\<close>

definition createSighashV4 ::
  "'a libs_scheme \<Rightarrow> transaction \<Rightarrow> nat \<Rightarrow> bytes \<Rightarrow> int \<Rightarrow> int \<Rightarrow> error + (bytes \<times> string list)" where
  "createSighashV4 L tx inputIndex scriptCode amount hashType =
     bindE (prevoutsData (inputs tx)) (\<lambda>prevouts.
     case blake2b256 L prevouts (Buffer_from_string (js_string ''ZcashPrevoutHash'')) of
       (hashPrevouts, log1) \<Rightarrow>
     bindE (sequenceData (inputs tx)) (\<lambda>seqs.
     case blake2b256 L seqs (Buffer_from_string (js_string ''ZcashSequencHash'')) of
       (hashSequence, log2) \<Rightarrow>
     bindE (outputsData (outputs tx)) (\<lambda>outs.
     case blake2b256 L outs (Buffer_from_string (js_string ''ZcashOutputsHash'')) of
       (hashOutputs, log3) \<Rightarrow>
     bindE (writeInt32LE (version tx)) (\<lambda>versionBuf.
     bindE (writeUInt32LE (versionGroupId tx)) (\<lambda>versionGroupBuf.
     bindE (writeBigInt64LE amount) (\<lambda>amountBuf.
     bindE (if inputIndex < length (inputs tx) then Inr (inputs tx ! inputIndex)
            else Inl TypeError) (\<lambda>input.
     bindE (writeUInt32LE (sequence input)) (\<lambda>sequenceBuf.
     bindE (writeUInt32LE (lockTime tx)) (\<lambda>lockTimeBuf.
     bindE (writeUInt32LE (expiryHeight tx)) (\<lambda>expiryBuf.
     bindE (writeUInt32LE hashType) (\<lambda>hashTypeBuf.
     bindE (writeUInt32LE (vout input)) (\<lambda>voutBuf.
     bindE (writeVarInt (int (length scriptCode))) (\<lambda>scriptLen.
     let preimage = versionBuf @ versionGroupBuf @ hashPrevouts @ hashSequence @ hashOutputs
           @ replicate 32 0 @ replicate 32 0 @ replicate 32 0
           @ lockTimeBuf @ expiryBuf @ replicate 8 0 @ hashTypeBuf
           @ txid input @ voutBuf @ scriptLen @ scriptCode @ amountBuf @ sequenceBuf
     in case blake2b256 L preimage sighash_personalization of
          (digest, log4) \<Rightarrow> Inr (digest, log1 @ log2 @ log3 @ log4))))))))))))))"

section \<open>DER signatures\<close>

text \<open>
  \<open>r[0] & 0x80\<close> as a condition: \<open>undefined & 0x80\<close> is 0, so an empty buffer
  has no high bit.
\<close>

definition high_bit :: "byte option \<Rightarrow> bool" where
  "high_bit b = (case b of None \<Rightarrow> False | Some x \<Rightarrow> x AND 0x80 \<noteq> 0)"

definition der_pad :: "bytes \<Rightarrow> bytes" where
  "der_pad r = (if high_bit (byte_at r 0) then [0x00] @ r else r)"

text \<open>The \<open>while\<close> loop that removes leading zeros.\<close>

fun der_strip :: "bytes \<Rightarrow> bytes" where
  "der_strip (a # b # rest) =
     (if a = 0 \<and> \<not> high_bit (Some b) then der_strip (b # rest) else a # b # rest)"
| "der_strip r = r"

definition createDerSignature :: "bytes \<Rightarrow> bytes \<Rightarrow> bytes" where
  "createDerSignature r0 s0 =
     (let r = der_strip (der_pad r0);
          s = der_strip (der_pad s0);
          rLen = length r;
          sLen = length s;
          totalLen = 4 + rLen + sLen
      in [0x30, of_nat totalLen, 0x02, of_nat rLen] @ r @ [0x02, of_nat sLen] @ s)"

text \<open>
  The encoding of one integer in the words of the specification, to compare with
  the code: all leading zero bytes are stripped; a value with no byte left is the
  single byte 0; one zero byte is put in front when the first remaining byte has
  its top bit set.
\<close>

definition minimal_der_int :: "bytes \<Rightarrow> bytes" where
  "minimal_der_int r =
     (let natural = dropWhile (\<lambda>b. b = 0) r in
      if natural = [] then [0]
      else if hd natural AND 0x80 \<noteq> 0 then 0 # natural
      else natural)"

section \<open>Keys\<close>

definition WIF_PREFIX :: byte where
  "WIF_PREFIX = 0xbc"

definition wifToPrivateKey :: "'a libs_scheme \<Rightarrow> string \<Rightarrow> error + bytes" where
  "wifToPrivateKey L wif =
     bindE (bs58check_decode L wif) (\<lambda>decoded.
     if length decoded = 34 then Inr (slice_buf decoded 1 33)
     else Inr (drop 1 decoded))"

definition isCompressedWif :: "'a libs_scheme \<Rightarrow> string \<Rightarrow> error + bool" where
  "isCompressedWif L wif =
     bindE (bs58check_decode L wif) (\<lambda>decoded.
     Inr (length decoded = 34 \<and> byte_at decoded 33 = Some 0x01))"

text \<open>
  \<open>generateWif\<close> draws the key with \<open>crypto.randomBytes(32)\<close>; the bytes drawn
  are the parameter \<open>privateKey\<close>.
\<close>

definition generateWif :: "'a libs_scheme \<Rightarrow> bytes \<Rightarrow> bool \<Rightarrow> string" where
  "generateWif L privateKey compressed =
     (let payload = (if compressed then [WIF_PREFIX] @ privateKey @ [0x01]
                     else [WIF_PREFIX] @ privateKey)
      in bs58check_encode L payload)"

definition privateKeyToPublicKey :: "'a libs_scheme \<Rightarrow> bytes \<Rightarrow> bool \<Rightarrow> error + bytes" where
  "privateKeyToPublicKey L privateKey compressed =
     (if \<not> isPrivate L privateKey then Inl InvalidPrivateKey
      else bindE (pointFromScalar L privateKey compressed) (\<lambda>publicKey.
           case publicKey of None \<Rightarrow> Inl FailedDerive | Some p \<Rightarrow> Inr p))"

section \<open>Signing one input\<close>

text \<open>
  \<open>signInput\<close> returns the hex of the rebuilt transaction, here together with the
  warnings logged on the way. The assignment to \<open>tx.inputs[inputIndex].scriptSig\<close>
  throws a TypeError outside the list.
\<close>

text \<open>
  The part of \<open>signInput\<close> that turns the 64-byte signature and the public key into
  the unlocking script \<open><sig> <pubkey>\<close>.
\<close>

definition unlock_script :: "bytes \<Rightarrow> bytes \<Rightarrow> bytes" where
  "unlock_script signature publicKey =
     (let r = slice_buf signature 0 32;
          s = slice_buf signature 32 64;
          derSig = createDerSignature r s;
          sigWithHashType = derSig @ [word_of_int SIGHASH_ALL];
          scriptSig = [of_nat (length sigWithHashType)] @ sigWithHashType
                      @ [of_nat (length publicKey)] @ publicKey
      in scriptSig)"

definition signInput ::
  "'a libs_scheme \<Rightarrow> string \<Rightarrow> string \<Rightarrow> nat \<Rightarrow> string \<Rightarrow> int \<Rightarrow> error + (string \<times> string list)" where
  "signInput L wif txHex inputIndex prevScriptPubKey amount =
     bindE (wifToPrivateKey L wif) (\<lambda>privateKey.
     bindE (isCompressedWif L wif) (\<lambda>compressed.
     bindE (privateKeyToPublicKey L privateKey compressed) (\<lambda>publicKey.
     bindE (parseTransaction txHex) (\<lambda>tx.
     let scriptCode = Buffer_from_hex prevScriptPubKey in
     bindE (createSighashV4 L tx inputIndex scriptCode amount SIGHASH_ALL) (\<lambda>(sighash, log).
     bindE (sign L sighash privateKey) (\<lambda>signature.
     case signature of
       None \<Rightarrow> Inl FailedSignature
     | Some sg \<Rightarrow>
         let scriptSig = unlock_script sg publicKey
         in if inputIndex < length (inputs tx)
            then bindE (rebuildTransaction
                          (tx\<lparr>inputs := (inputs tx)
                                 [inputIndex := (inputs tx ! inputIndex)\<lparr>scriptSig := scriptSig\<rparr>]\<rparr>))
                   (\<lambda>hex. Inr (hex, log))
            else Inl TypeError))))))"

section \<open>Well-formed transaction values\<close>

text \<open>
  Two predicates on transaction values, used to state the properties of the codec.
  \<open>wf_tx\<close>: every field fits the width the wire format gives it and every previous
  transaction id has 32 bytes. \<open>normal_tx\<close>: a field that the version flags exclude
  from the wire format holds the value the parser gives it, zero.
\<close>

definition u32 :: "int \<Rightarrow> bool" where
  "u32 v = (0 \<le> v \<and> v \<le> 0xffffffff)"

definition i64 :: "int \<Rightarrow> bool" where
  "i64 v = (- (2 ^ 63) \<le> v \<and> v < 2 ^ 63)"

definition wf_input :: "tx_input \<Rightarrow> bool" where
  "wf_input i = (length (txid i) = 32 \<and> u32 (vout i) \<and> u32 (int (length (scriptSig i)))
     \<and> u32 (sequence i))"

definition wf_output :: "tx_output \<Rightarrow> bool" where
  "wf_output out = (i64 (out_value out) \<and> u32 (int (length (scriptPubKey out))))"

definition wf_tx :: "transaction \<Rightarrow> bool" where
  "wf_tx tx =
     (- (2 ^ 31) \<le> version tx \<and> version tx < 2 ^ 31
      \<and> u32 (versionGroupId tx)
      \<and> u32 (int (length (inputs tx))) \<and> (\<forall>i \<in> set (inputs tx). wf_input i)
      \<and> u32 (int (length (outputs tx))) \<and> (\<forall>out \<in> set (outputs tx). wf_output out)
      \<and> u32 (lockTime tx) \<and> u32 (expiryHeight tx) \<and> i64 (valueBalance tx))"

definition normal_tx :: "transaction \<Rightarrow> bool" where
  "normal_tx tx =
     ((js_bitand (version tx) 0x80000000 = 0 \<longrightarrow> versionGroupId tx = 0)
      \<and> (\<not> (version tx \<ge> 3 \<or> js_bitand (version tx) 0x80000000 \<noteq> 0)
             \<longrightarrow> expiryHeight tx = 0)
      \<and> (\<not> (js_bitand (version tx) 0x80000000 \<noteq> 0 \<and> versionGroupId tx = 0x892f2085)
             \<longrightarrow> valueBalance tx = 0))"

text \<open>
  \<open>absent_cleared\<close> sets to zero the fields that the flags exclude from the wire
  format; it is the value the parser returns for the bytes of a transaction.
\<close>

definition absent_cleared :: "transaction \<Rightarrow> transaction" where
  "absent_cleared tx = tx
     \<lparr>versionGroupId := (if js_bitand (version tx) 0x80000000 \<noteq> 0 then versionGroupId tx else 0),
      expiryHeight := (if version tx \<ge> 3 \<or> js_bitand (version tx) 0x80000000 \<noteq> 0
                       then expiryHeight tx else 0),
      valueBalance := (if js_bitand (version tx) 0x80000000 \<noteq> 0
                          \<and> versionGroupId tx = 0x892f2085 then valueBalance tx else 0)\<rparr>"


section \<open>The extent a transaction buffer declares\<close>

text \<open>
  Written from the specification (sections 4.1 and 4.2), to compare with the
  parser: where the structure that a buffer declares ends. Every field is
  required to lie inside the buffer. \<open>Ends n\<close>: the structure fits and ends at
  offset \<open>n\<close>. \<open>PastEnd\<close>: a fixed-width field, a length prefix or the bytes that
  a prefix announces would read beyond the end of the buffer. \<open>Wide\<close>: before
  that happened, a length prefix was met that holds \<open>2 ^ 32\<close> or more, which
  only the nine-byte form can.
\<close>

datatype extent = Ends nat | PastEnd | Wide

definition then_at :: "extent \<Rightarrow> (nat \<Rightarrow> extent) \<Rightarrow> extent" where
  "then_at e f = (case e of Ends n \<Rightarrow> f n | PastEnd \<Rightarrow> PastEnd | Wide \<Rightarrow> Wide)"

definition fixed_field :: "bytes \<Rightarrow> nat \<Rightarrow> nat \<Rightarrow> extent" where
  "fixed_field buf offset w = (if offset + w \<le> length buf then Ends (offset + w) else PastEnd)"

text \<open>
  The varint of section 4.1, with the full 64-bit value of the nine-byte form:
  the value and the width, or \<open>None\<close> when the prefix itself does not fit.
\<close>

definition declared_varint :: "bytes \<Rightarrow> nat \<Rightarrow> (nat \<times> nat) option" where
  "declared_varint buf offset =
     (case byte_at buf offset of
        None \<Rightarrow> None
      | Some first \<Rightarrow>
          if first < 0xfd then Some (unat first, 1)
          else if first = 0xfd then
            (if offset + 3 \<le> length buf
             then Some (le_nat (take 2 (drop (offset + 1) buf)), 3) else None)
          else if first = 0xfe then
            (if offset + 5 \<le> length buf
             then Some (le_nat (take 4 (drop (offset + 1) buf)), 5) else None)
          else
            (if offset + 9 \<le> length buf
             then Some (le_nat (take 8 (drop (offset + 1) buf)), 9) else None))"

definition declared_prefix :: "bytes \<Rightarrow> nat \<Rightarrow> extent + (nat \<times> nat)" where
  "declared_prefix buf offset =
     (case declared_varint buf offset of
        None \<Rightarrow> Inl PastEnd
      | Some (v, w) \<Rightarrow> if 2 ^ 32 \<le> v then Inl Wide else Inr (v, offset + w))"

fun declared_inputs :: "bytes \<Rightarrow> nat \<Rightarrow> nat \<Rightarrow> extent" where
  "declared_inputs buf offset 0 = Ends offset"
| "declared_inputs buf offset (Suc n) =
     then_at (fixed_field buf offset 32) (\<lambda>o1.
     then_at (fixed_field buf o1 4) (\<lambda>o2.
     case declared_prefix buf o2 of
       Inl e \<Rightarrow> e
     | Inr (scriptLen, o3) \<Rightarrow>
         then_at (fixed_field buf o3 scriptLen) (\<lambda>o4.
         then_at (fixed_field buf o4 4) (\<lambda>o5.
         declared_inputs buf o5 n))))"

fun declared_outputs :: "bytes \<Rightarrow> nat \<Rightarrow> nat \<Rightarrow> extent" where
  "declared_outputs buf offset 0 = Ends offset"
| "declared_outputs buf offset (Suc n) =
     then_at (fixed_field buf offset 8) (\<lambda>o1.
     case declared_prefix buf o1 of
       Inl e \<Rightarrow> e
     | Inr (scriptLen, o2) \<Rightarrow>
         then_at (fixed_field buf o2 scriptLen) (\<lambda>o3.
         declared_outputs buf o3 n))"

definition declared_extent :: "bytes \<Rightarrow> extent" where
  "declared_extent buf =
     then_at (fixed_field buf 0 4) (\<lambda>o1.
     let version = signed_of 4 (le_nat (take 4 buf));
         overwinter = (version < 0)
     in
     then_at (if overwinter then fixed_field buf o1 4 else Ends o1) (\<lambda>o2.
     let versionGroupId = le_nat (take 4 (drop 4 buf)) in
     case declared_prefix buf o2 of
       Inl e \<Rightarrow> e
     | Inr (inputCount, o3) \<Rightarrow>
     then_at (declared_inputs buf o3 inputCount) (\<lambda>o4.
     case declared_prefix buf o4 of
       Inl e \<Rightarrow> e
     | Inr (outputCount, o5) \<Rightarrow>
     then_at (declared_outputs buf o5 outputCount) (\<lambda>o6.
     then_at (fixed_field buf o6 4) (\<lambda>o7.
     then_at (if version \<ge> 3 \<or> overwinter then fixed_field buf o7 4 else Ends o7) (\<lambda>o8.
     if overwinter \<and> versionGroupId = 0x892f2085 then fixed_field buf o8 8 else Ends o8))))))"


section \<open>Example transactions\<close>

text \<open>
  \<open>ex_raw\<close>: a version 1 transaction with one input (script \<open>51 52\<close>) and no output.
  \<open>ex_sapling\<close>: an overwinter-sapling value with one input and one output, and
  \<open>ex_sapling_hex\<close>, its serialization.
  \<open>ex_hex\<close>: the hex of \<open>ex_raw\<close>; \<open>ex_signed_hex\<close>: what signing its input with
  the stand-ins below returns.
  \<open>ex_truncated_hex\<close>: the first 43 bytes of \<open>ex_raw\<close>, cut inside the script.
  \<open>ex_wide_hex\<close>: a version 1 header, an input count in the nine-byte form
  holding \<open>2 ^ 32\<close>, an output count of 0 and a lock time: 18 bytes.
  \<open>ex_mixed\<close>: a version 2 value whose versionGroupId, expiryHeight and valueBalance
  were set by a caller although version 2 excludes them from the wire format.
\<close>

definition ex_txid :: bytes where
  "ex_txid = [0xaa, 0xaa, 0xaa, 0xaa, 0xaa, 0xaa, 0xaa, 0xaa, 0xaa, 0xaa, 0xaa, 0xaa, 0xaa, 0xaa,
              0xaa, 0xaa, 0xaa, 0xaa, 0xaa, 0xaa, 0xaa, 0xaa, 0xaa, 0xaa, 0xaa, 0xaa, 0xaa, 0xaa,
              0xaa, 0xaa, 0xaa, 0xaa]"

definition ex_raw :: bytes where
  "ex_raw = [1, 0, 0, 0, 1] @ ex_txid
            @ [0, 0, 0, 0, 2, 0x51, 0x52, 0xff, 0xff, 0xff, 0xff, 0, 0, 0, 0, 0]"

definition ex_tx :: transaction where
  "ex_tx = \<lparr>version = 1, versionGroupId = 0,
            inputs = [\<lparr>txid = ex_txid, vout = 0, scriptSig = [0x51, 0x52],
                       sequence = 0xffffffff\<rparr>],
            outputs = [], lockTime = 0, expiryHeight = 0, valueBalance = 0, raw = ex_raw\<rparr>"

definition ex_mixed :: transaction where
  "ex_mixed = \<lparr>version = 2, versionGroupId = 0x892f2085, inputs = [], outputs = [],
               lockTime = 0, expiryHeight = 500, valueBalance = 7, raw = []\<rparr>"

definition ex_sapling :: transaction where
  "ex_sapling = \<lparr>version = - 2147483644, versionGroupId = 0x892f2085,
                 inputs = [\<lparr>txid = ex_txid, vout = 1, scriptSig = [], sequence = 0xfffffffe\<rparr>],
                 outputs = [\<lparr>out_value = 5000, scriptPubKey = [0x76, 0xa9]\<rparr>],
                 lockTime = 0, expiryHeight = 20, valueBalance = 0, raw = []\<rparr>"

definition ex_sapling_hex :: string where
  "ex_sapling_hex = ''0400008085202f8901aaaaaaaaaaaaaaaaaaaaaaaaaaaaaaaaaaaaaaaaaaaaaaaaaaaaaaaaaaaaaaaa0100000000feffffff0188130000000000000276a900000000140000000000000000000000000000''"

definition ex_hex :: string where
  "ex_hex = ''0100000001aaaaaaaaaaaaaaaaaaaaaaaaaaaaaaaaaaaaaaaaaaaaaaaaaaaaaaaaaaaaaaaa00000000025152ffffffff0000000000''"

definition ex_signed_hex :: string where
  "ex_signed_hex = ''0100000001aaaaaaaaaaaaaaaaaaaaaaaaaaaaaaaaaaaaaaaaaaaaaaaaaaaaaaaaaaaaaaaa00000000694630430221008011111111111111111111111111111111111111111111111111111111111111021e7f2222222222222222222222222222222222222222222222222222222222012102aaaaaaaaaaaaaaaaaaaaaaaaaaaaaaaaaaaaaaaaaaaaaaaaaaaaaaaaaaaaaaaaffffffff0000000000''"

definition ex_truncated_hex :: string where
  "ex_truncated_hex =
     ''0100000001aaaaaaaaaaaaaaaaaaaaaaaaaaaaaaaaaaaaaaaaaaaaaaaaaaaaaaaaaaaaaaaa000000000251''"

definition ex_wide_hex :: string where
  "ex_wide_hex = ''01000000ff00000000010000000000000000''"


section \<open>Stand-ins for the imported packages\<close>

text \<open>
  Test doubles, used only to run the code on concrete inputs.
  \<open>stub_libs\<close>: hashes and signatures of fixed content, a fixed WIF payload.
  \<open>tag_probe\<close>: the same, except that \<open>blake2b\<close> returns the personalization it
  is given, which makes the tag of the last hash call the result of
  \<open>createSighashV4\<close>. \<open>no_blake2b\<close>: the same, except that \<open>blake2b\<close> is unavailable.
  \<open>strict_blake2b\<close>: the same, except that \<open>blake2b\<close> rejects a personalization that
  is not 16 bytes long.
\<close>

definition ex_r :: bytes where
  "ex_r = [0x80, 0x11, 0x11, 0x11, 0x11, 0x11, 0x11, 0x11, 0x11, 0x11, 0x11, 0x11, 0x11, 0x11,
           0x11, 0x11, 0x11, 0x11, 0x11, 0x11, 0x11, 0x11, 0x11, 0x11, 0x11, 0x11, 0x11, 0x11,
           0x11, 0x11, 0x11, 0x11]"

definition ex_s :: bytes where
  "ex_s = [0x00, 0x00, 0x7f, 0x22, 0x22, 0x22, 0x22, 0x22, 0x22, 0x22, 0x22, 0x22, 0x22, 0x22,
           0x22, 0x22, 0x22, 0x22, 0x22, 0x22, 0x22, 0x22, 0x22, 0x22, 0x22, 0x22, 0x22, 0x22,
           0x22, 0x22, 0x22, 0x22]"

definition stub_libs :: libs where
  "stub_libs = \<lparr>
     blake2b = (\<lambda>data personalization. Some (replicate 32 0x0b)),
     sha256 = (\<lambda>data. replicate 32 0x0a),
     bs58check_decode = (\<lambda>wif. Inr ([0xbc] @ ex_txid @ [0x01])),
     bs58check_encode = (\<lambda>payload. toString_hex payload),
     isPrivate = (\<lambda>key. True),
     pointFromScalar = (\<lambda>key compressed. Inr (Some ([0x02] @ ex_txid))),
     sign = (\<lambda>digest key. Inr (Some (ex_r @ ex_s)))\<rparr>"

definition tag_probe :: libs where
  "tag_probe = stub_libs\<lparr>blake2b := (\<lambda>data personalization. Some personalization)\<rparr>"

definition strict_blake2b :: libs where
  "strict_blake2b = stub_libs
     \<lparr>blake2b := (\<lambda>data personalization.
                    if length personalization = 16 then Some (replicate 32 0x0b) else None)\<rparr>"

definition no_blake2b :: libs where
  "no_blake2b = stub_libs\<lparr>blake2b := (\<lambda>data personalization. None)\<rparr>"

section \<open>A model of Base58Check\<close>

text \<open>
  The package \<open>bs58check\<close> is not part of the repository. The theorems about WIF
  strings assume only that its \<open>decode\<close> inverts its \<open>encode\<close>. The model below,
  the Base58Check algorithm over the hash \<open>H\<close> (SHA-256 in the package), shows
  that this assumption can be met.

  Digits are kept least significant first. \<open>digits b n\<close> are the base-\<open>b\<close> digits
  of \<open>n\<close>, none for 0; \<open>from_digits\<close> is their value; \<open>strip_high\<close> drops the zero
  digits at the most significant end.
\<close>

function digits :: "nat \<Rightarrow> nat \<Rightarrow> nat list" where
  "digits b n = (if n = 0 \<or> b < 2 then [] else n mod b # digits b (n div b))"
  by pat_completeness auto
termination
  by (relation "measure snd") auto

declare digits.simps [simp del]

fun from_digits :: "nat \<Rightarrow> nat list \<Rightarrow> nat" where
  "from_digits b [] = 0"
| "from_digits b (d # ds) = d + b * from_digits b ds"

fun strip_high :: "nat list \<Rightarrow> nat list" where
  "strip_high [] = []"
| "strip_high (d # ds) = (if strip_high ds = [] \<and> d = 0 then [] else d # strip_high ds)"

definition base58_chars :: string where
  "base58_chars = ''123456789ABCDEFGHJKLMNPQRSTUVWXYZabcdefghijkmnopqrstuvwxyz''"

fun index_of :: "'a \<Rightarrow> 'a list \<Rightarrow> nat option" where
  "index_of c [] = None"
| "index_of c (x # xs) = (if c = x then Some 0 else map_option Suc (index_of c xs))"

text \<open>
  Every leading zero byte becomes the character \<open>1\<close>; the rest is the number the
  bytes spell, in base 58.
\<close>

definition base58_encode :: "bytes \<Rightarrow> string" where
  "base58_encode bs =
     (let zeros = length (takeWhile (\<lambda>b. b = 0) bs);
          n = from_digits 256 (rev (map unat bs))
      in replicate zeros (CHR ''1'') @ map (\<lambda>d. base58_chars ! d) (rev (digits 58 n)))"

definition base58_decode :: "string \<Rightarrow> bytes option" where
  "base58_decode s =
     (case those (map (\<lambda>c. index_of c base58_chars) s) of
        None \<Rightarrow> None
      | Some ds \<Rightarrow>
          let zeros = length (takeWhile (\<lambda>d. d = 0) ds);
              n = from_digits 58 (rev ds)
          in Some (replicate zeros 0 @ map of_nat (rev (digits 256 n))))"

definition base58check_encode :: "(bytes \<Rightarrow> bytes) \<Rightarrow> bytes \<Rightarrow> string" where
  "base58check_encode H payload = base58_encode (payload @ take 4 (H (H payload)))"

definition base58check_decode :: "(bytes \<Rightarrow> bytes) \<Rightarrow> string \<Rightarrow> error + bytes" where
  "base58check_decode H s =
     (case base58_decode s of
        None \<Rightarrow> Inl LibraryError
      | Some bs \<Rightarrow>
          let payload = take (length bs - 4) bs;
              checksum = drop (length bs - 4) bs
          in if checksum = take 4 (H (H payload)) then Inr payload else Inl LibraryError)"

text \<open>
  \<open>base58_libs\<close>: the stand-ins with the Base58Check model as the \<open>bs58check\<close>
  package, over the stand-in hash.
\<close>

definition base58_libs :: libs where
  "base58_libs = stub_libs
     \<lparr>bs58check_decode := base58check_decode (sha256 stub_libs),
      bs58check_encode := base58check_encode (sha256 stub_libs)\<rparr>"

section \<open>Properties of the little-endian codec\<close>

lemma le_bytes_2: "le_bytes 2 n = [of_nat (n mod 256), of_nat (n div 256 mod 256)]"
proof -
  have "le_bytes (Suc (Suc 0)) n = [of_nat (n mod 256), of_nat (n div 256 mod 256)]"
    by simp
  then show ?thesis by (simp only: numeral_2_eq_2)
qed

lemma le_bytes_add: "le_bytes (j + k) n = le_bytes j n @ le_bytes k (n div 256 ^ j)"
proof (induction j arbitrary: n)
  case 0
  show ?case by simp
next
  case (Suc j)
  show ?case by (simp add: Suc div_mult2_eq)
qed

lemma le_bytes_4: "le_bytes 4 n = le_bytes 2 n @ le_bytes 2 (n div 65536)"
  using le_bytes_add [of 2 2 n] by simp

lemma le_bytes_8: "le_bytes 8 n = le_bytes 4 n @ le_bytes 4 (n div 4294967296)"
  using le_bytes_add [of 4 4 n] by simp

lemma length_le_bytes [simp]: "length (le_bytes k n) = k"
  by (induction k arbitrary: n) auto

lemma byte_less_256: "unat (b :: byte) < 256"
  using unsigned_less [of b, where ?'a = nat] by simp

lemma le_nat_le_bytes: "n < 256 ^ k \<Longrightarrow> le_nat (le_bytes k n) = n"
proof (induction k arbitrary: n)
  case 0
  then show ?case by simp
next
  case (Suc k)
  have "n div 256 < 256 ^ k"
    using Suc.prems by (simp add: less_mult_imp_div_less mult.commute)
  then have "le_nat (le_bytes k (n div 256)) = n div 256" by (rule Suc.IH)
  then show ?case by (simp add: unat_of_nat)
qed

lemma le_nat_bound: "le_nat bs < 256 ^ length bs"
proof (induction bs)
  case Nil
  show ?case by simp
next
  case (Cons b bs)
  with byte_less_256 [of b] show ?case by simp
qed

lemma le_bytes_le_nat: "le_bytes (length bs) (le_nat bs) = bs"
proof (induction bs)
  case Nil
  show ?case by simp
next
  case (Cons b bs)
  have b: "unat b < 256" by (rule byte_less_256)
  then have "(unat b + 256 * le_nat bs) mod 256 = unat b" by simp
  moreover have "(unat b + 256 * le_nat bs) div 256 = le_nat bs" using b by simp
  ultimately show ?case using Cons by simp
qed


section \<open>Properties of the hex codec\<close>

lemma hex_digits_decode: "\<forall>n \<in> set [0..<16]. hex_value (hex_digit n) = Some n"
  by code_simp

lemma hex_value_digit: "n < 16 \<Longrightarrow> hex_value (hex_digit n) = Some n"
  using hex_digits_decode by simp

lemma from_hex_to_hex [simp]: "Buffer_from_hex (toString_hex bs) = bs"
proof (induction bs)
  case Nil
  show ?case by (simp add: toString_hex_def)
next
  case (Cons b bs)
  have d: "unat b div 16 < 16" using byte_less_256 [of b] by simp
  have m: "unat b mod 16 < 16" by simp
  have "(of_nat (16 * (unat b div 16) + unat b mod 16) :: byte) = b"
    by simp
  with Cons show ?case
    by (simp add: toString_hex_def hex_value_digit [OF d] hex_value_digit [OF m])
qed

section \<open>The overwinter bit\<close>

lemma high_bit_sign:
  assumes "- (2 ^ 31) \<le> v" "v < 2 ^ 31"
  shows "(js_bitand v 0x80000000 \<noteq> 0) = (v < 0)"
proof -
  let ?w = "word_of_int v :: 32 word"
  have c: "(word_of_int 0x80000000 :: 32 word) = 2 ^ 31" by simp
  have "(js_bitand v 0x80000000 \<noteq> 0) = (?w AND 2 ^ 31 \<noteq> 0)"
    unfolding js_bitand_def c by (simp only: signed_eq_0_iff)
  also have "\<dots> = bit ?w 31" using and_exp_eq_0_iff_not_bit [of ?w 31] by blast
  also have "\<dots> = (sint ?w < 0)" using bit_last_iff [of ?w] by simp
  also have "sint ?w = v"
    using assms signed_take_bit_int_eq_self [of 31 v] by (simp add: sint_sbintrunc')
  finally show ?thesis .
qed

section \<open>Reading back what was written\<close>


lemma bindE_Inr: "(bindE m f = Inr y) = (\<exists>x. m = Inr x \<and> f x = Inr y)"
  by (cases m) (simp_all add: bindE_def)

lemma bindE_Inr_simp [simp]: "bindE (Inr x) f = f x"
  by (simp add: bindE_def)

lemma bindE_Inl_simp [simp]: "bindE (Inl e) f = Inl e"
  by (simp add: bindE_def)

lemma drop_step: "drop off buf = a @ r \<Longrightarrow> drop (off + length a) buf = r"
proof -
  assume h: "drop off buf = a @ r"
  have "drop (off + length a) buf = drop (length a) (drop off buf)"
    by (simp add: add.commute)
  then show ?thesis using h by simp
qed

lemma drop_append_bound: "drop off buf = a @ r \<Longrightarrow> a \<noteq> [] \<Longrightarrow> off + length a \<le> length buf"
proof -
  assume h: "drop off buf = a @ r" and ne: "a \<noteq> []"
  have "length (drop off buf) = length a + length r" using h by simp
  then have "length buf - off = length a + length r" by simp
  moreover have "0 < length a" using ne by simp
  ultimately show ?thesis by arith
qed

lemma readUIntLE_at:
  assumes "drop off buf = bs @ rest" "length bs = w" "0 < w"
  shows "readUIntLE w buf off = Inr (le_nat bs)"
proof -
  have "bs \<noteq> []" using assms by auto
  then have "off + w \<le> length buf" using drop_append_bound [OF assms(1)] assms(2) by simp
  then show ?thesis using assms by (simp add: readUIntLE_def)
qed

lemma slice_at: "drop off buf = bs @ rest \<Longrightarrow> length bs = n \<Longrightarrow> slice_buf buf off (off + n) = bs"
  by (simp add: slice_buf_def)

lemma read_write_UInt16:
  assumes "writeUInt16LE v = Inr bs" "drop off buf = bs @ rest"
  shows "readUInt16LE buf off = Inr v"
proof -
  have r: "0 \<le> v" "v \<le> 0xffff" and b: "bs = le_bytes 2 (nat v)"
    using assms(1) by (auto simp: writeUInt16LE_def split: if_splits)
  have "nat v < 256 ^ 2" using r by simp
  then have "le_nat bs = nat v" unfolding b by (rule le_nat_le_bytes)
  moreover have "readUIntLE 2 buf off = Inr (le_nat bs)"
    using assms(2) b by (intro readUIntLE_at) auto
  ultimately show ?thesis using r by (simp add: readUInt16LE_def)
qed

lemma read_write_UInt32:
  assumes "writeUInt32LE v = Inr bs" "drop off buf = bs @ rest"
  shows "readUInt32LE buf off = Inr v"
proof -
  have r: "0 \<le> v" "v \<le> 0xffffffff" and b: "bs = le_bytes 4 (nat v)"
    using assms(1) by (auto simp: writeUInt32LE_def split: if_splits)
  have "nat v < 256 ^ 4" using r by simp
  then have "le_nat bs = nat v" unfolding b by (rule le_nat_le_bytes)
  moreover have "readUIntLE 4 buf off = Inr (le_nat bs)"
    using assms(2) b by (intro readUIntLE_at) auto
  ultimately show ?thesis using r by (simp add: readUInt32LE_def)
qed

lemma mod_wrap:
  fixes v m :: int
  assumes "- m \<le> 2 * v" "2 * v < m"
  shows "v mod m = (if 0 \<le> v then v else v + m)"
proof (cases "0 \<le> v")
  case True
  then show ?thesis using assms by simp
next
  case False
  have "v mod m = (v + m) mod m" by simp
  also have "\<dots> = v + m" using False assms by (intro mod_pos_pos_trivial) auto
  finally show ?thesis using False by simp
qed

lemma signed_of_32:
  assumes "- (2 ^ 31) \<le> v" "v < 2 ^ 31"
  shows "signed_of 4 (nat (v mod 2 ^ 32)) = v"
proof -
  have "v mod 4294967296 = (if 0 \<le> v then v else v + 4294967296)"
    using assms by (intro mod_wrap) auto
  then show ?thesis using assms by (auto simp: signed_of_def)
qed

lemma signed_of_64:
  assumes "- (2 ^ 63) \<le> v" "v < 2 ^ 63"
  shows "signed_of 8 (nat (v mod 2 ^ 64)) = v"
proof -
  have "v mod 18446744073709551616 = (if 0 \<le> v then v else v + 18446744073709551616)"
    using assms by (intro mod_wrap) auto
  then show ?thesis using assms by (auto simp: signed_of_def)
qed

lemma read_write_Int32:
  assumes "writeInt32LE v = Inr bs" "drop off buf = bs @ rest"
  shows "readInt32LE buf off = Inr v"
proof -
  have r: "- (2 ^ 31) \<le> v" "v < 2 ^ 31" and b: "bs = le_bytes 4 (nat (v mod 2 ^ 32))"
    using assms(1) by (auto simp: writeInt32LE_def split: if_splits)
  have "nat (v mod 2 ^ 32) < 256 ^ 4" by (simp add: nat_less_iff)
  then have "le_nat bs = nat (v mod 2 ^ 32)" unfolding b by (rule le_nat_le_bytes)
  moreover have "readUIntLE 4 buf off = Inr (le_nat bs)"
    using assms(2) b by (intro readUIntLE_at) auto
  ultimately show ?thesis using signed_of_32 [OF r] by (simp add: readInt32LE_def)
qed

lemma read_write_BigInt64:
  assumes "writeBigInt64LE v = Inr bs" "drop off buf = bs @ rest"
  shows "readBigInt64LE buf off = Inr v"
proof -
  have r: "- (2 ^ 63) \<le> v" "v < 2 ^ 63" and b: "bs = le_bytes 8 (nat (v mod 2 ^ 64))"
    using assms(1) by (auto simp: writeBigInt64LE_def split: if_splits)
  have "nat (v mod 2 ^ 64) < 256 ^ 8" by (simp add: nat_less_iff)
  then have "le_nat bs = nat (v mod 2 ^ 64)" unfolding b by (rule le_nat_le_bytes)
  moreover have "readUIntLE 8 buf off = Inr (le_nat bs)"
    using assms(2) b by (intro readUIntLE_at) auto
  ultimately show ?thesis using signed_of_64 [OF r] by (simp add: readBigInt64LE_def)
qed

lemma byte_at_drop: "drop off buf = b # rest \<Longrightarrow> byte_at buf off = Some b"
proof -
  assume h: "drop off buf = b # rest"
  then have "off < length buf" by (metis drop_all list.discI not_le)
  moreover from this have "buf ! off = hd (drop off buf)" by (simp add: hd_drop_conv_nth)
  ultimately show ?thesis using h by (simp add: byte_at_def)
qed

lemma small_byte:
  assumes "0 \<le> v" "v < 256"
  shows "uint (word_of_int v :: byte) = v"
  using assms by (simp add: uint_word_of_int)

lemma read_write_VarInt:
  assumes w: "writeVarInt v = Inr bs" and nn: "0 \<le> v" and d: "drop off buf = bs @ rest"
  shows "readVarInt buf off = Inr (v, off + length bs)"
proof -
  consider (one) "v < 0xfd" | (three) "0xfd \<le> v" "v \<le> 0xffff"
    | (five) "0xffff < v" "v \<le> 0xffffffff"
    using w by (auto simp: writeVarInt_def split: if_splits)
  then show ?thesis
  proof cases
    case one
    then have b: "bs = [word_of_int v]" using w by (simp add: writeVarInt_def)
    have u: "uint (word_of_int v :: byte) = v" using nn one by (intro small_byte) auto
    have "(word_of_int v :: byte) < 0xfd" using u one by (simp add: word_less_def)
    moreover have "byte_at buf off = Some (word_of_int v)" using d b by (intro byte_at_drop) auto
    ultimately show ?thesis using u b by (simp add: readVarInt_def)
  next
    case three
    then obtain b2 where b2: "writeUInt16LE v = Inr b2" and b: "bs = 0xfd # b2"
      using w by (auto simp: writeVarInt_def bindE_Inr)
    have l: "length b2 = 2" using b2 by (auto simp: writeUInt16LE_def split: if_splits)
    have "byte_at buf off = Some 0xfd" using d b by (intro byte_at_drop) auto
    moreover have "drop (off + 1) buf = b2 @ rest" using drop_step [of off buf "[0xfd]"] d b by simp
    then have "readUInt16LE buf (off + 1) = Inr v" by (rule read_write_UInt16 [OF b2])
    ultimately show ?thesis using b l by (simp add: readVarInt_def)
  next
    case five
    then obtain b4 where b4: "writeUInt32LE v = Inr b4" and b: "bs = 0xfe # b4"
      using w by (auto simp: writeVarInt_def bindE_Inr)
    have l: "length b4 = 4" using b4 by (auto simp: writeUInt32LE_def split: if_splits)
    have "byte_at buf off = Some 0xfe" using d b by (intro byte_at_drop) auto
    moreover have "drop (off + 1) buf = b4 @ rest" using drop_step [of off buf "[0xfe]"] d b by simp
    then have "readUInt32LE buf (off + 1) = Inr v" by (rule read_write_UInt32 [OF b4])
    ultimately show ?thesis using b l by (simp add: readVarInt_def)
  qed
qed




lemma parse_rebuild_input:
  assumes rb: "rebuild_input i = Inr bs" and id: "length (txid i) = 32"
    and d: "drop off buf = bs @ rest"
    and nxt: "parse_inputs buf (off + length bs) n = Inr (is, off')"
  shows "parse_inputs buf off (Suc n) = Inr (i # is, off')"
proof -
  obtain voutBuf len seqBuf where
    v: "writeUInt32LE (vout i) = Inr voutBuf" and
    l: "writeVarInt (int (length (scriptSig i))) = Inr len" and
    s: "writeUInt32LE (sequence i) = Inr seqBuf" and
    bs: "bs = txid i @ voutBuf @ len @ scriptSig i @ seqBuf"
    using rb unfolding rebuild_input_def by (auto simp: bindE_Inr)
  have lv: "length voutBuf = 4" using v by (auto simp: writeUInt32LE_def split: if_splits)
  have ls: "length seqBuf = 4" using s by (auto simp: writeUInt32LE_def split: if_splits)
  have d0: "drop off buf = txid i @ (voutBuf @ len @ scriptSig i @ seqBuf @ rest)"
    using d bs by simp
  have t: "slice_buf buf off (off + 32) = txid i" using d0 id by (rule slice_at)
  have d1: "drop (off + 32) buf = voutBuf @ (len @ scriptSig i @ seqBuf @ rest)"
    using drop_step [OF d0] id by simp
  have rv: "readUInt32LE buf (off + 32) = Inr (vout i)" by (rule read_write_UInt32 [OF v d1])
  have d2: "drop (off + 32 + 4) buf = len @ (scriptSig i @ seqBuf @ rest)"
    using drop_step [OF d1] lv by simp
  define o2 where "o2 = off + 32 + 4 + length len"
  have rl: "readVarInt buf (off + 32 + 4) = Inr (int (length (scriptSig i)), o2)"
    unfolding o2_def by (rule read_write_VarInt [OF l _ d2]) simp
  have d3: "drop o2 buf = scriptSig i @ (seqBuf @ rest)"
    unfolding o2_def using drop_step [OF d2] by simp
  have sc: "slice_buf buf o2 (o2 + length (scriptSig i)) = scriptSig i" using d3 by (rule slice_at) simp
  have d4: "drop (o2 + length (scriptSig i)) buf = seqBuf @ rest"
    using drop_step [OF d3] by simp
  have rs: "readUInt32LE buf (o2 + length (scriptSig i)) = Inr (sequence i)"
    by (rule read_write_UInt32 [OF s d4])
  have e: "o2 + length (scriptSig i) + 4 = off + length bs"
    unfolding o2_def bs using id lv ls by simp
  show ?thesis
    using t rv rl sc rs nxt by (simp add: e Let_def)
qed

lemma parse_rebuild_inputs:
  assumes "rebuild_inputs ins = Inr bs" "\<forall>i\<in>set ins. length (txid i) = 32"
    "drop off buf = bs @ rest"
  shows "parse_inputs buf off (length ins) = Inr (ins, off + length bs)"
  using assms
proof (induction ins arbitrary: bs off)
  case Nil
  then show ?case by simp
next
  case (Cons i ins)
  obtain b bs' where b: "rebuild_input i = Inr b" and bs': "rebuild_inputs ins = Inr bs'"
    and bs: "bs = b @ bs'"
    using Cons.prems(1) by (auto simp: bindE_Inr)
  have d0: "drop off buf = b @ (bs' @ rest)" using Cons.prems(3) bs by simp
  have d1: "drop (off + length b) buf = bs' @ rest" using drop_step [OF d0] .
  have "parse_inputs buf (off + length b) (length ins) = Inr (ins, off + length b + length bs')"
    using bs' Cons.prems(2) d1 by (intro Cons.IH) auto
  then have "parse_inputs buf off (Suc (length ins)) = Inr (i # ins, off + length b + length bs')"
    using Cons.prems(2) by (intro parse_rebuild_input [OF b _ d0]) auto
  then show ?case using bs by (simp add: add.assoc)
qed

lemma parse_rebuild_output:
  assumes rb: "rebuild_output out = Inr bs"
    and d: "drop off buf = bs @ rest"
    and nxt: "parse_outputs buf (off + length bs) n = Inr (os, off')"
  shows "parse_outputs buf off (Suc n) = Inr (out # os, off')"
proof -
  obtain valueBuf len where
    v: "writeBigInt64LE (out_value out) = Inr valueBuf" and
    l: "writeVarInt (int (length (scriptPubKey out))) = Inr len" and
    bs: "bs = valueBuf @ len @ scriptPubKey out"
    using rb unfolding rebuild_output_def by (auto simp: bindE_Inr)
  have lv: "length valueBuf = 8" using v by (auto simp: writeBigInt64LE_def split: if_splits)
  have d0: "drop off buf = valueBuf @ (len @ scriptPubKey out @ rest)"
    using d bs by simp
  have rv: "readBigInt64LE buf off = Inr (out_value out)" by (rule read_write_BigInt64 [OF v d0])
  have d1: "drop (off + 8) buf = len @ (scriptPubKey out @ rest)"
    using drop_step [OF d0] lv by simp
  define o2 where "o2 = off + 8 + length len"
  have rl: "readVarInt buf (off + 8) = Inr (int (length (scriptPubKey out)), o2)"
    unfolding o2_def by (rule read_write_VarInt [OF l _ d1]) simp
  have d2: "drop o2 buf = scriptPubKey out @ rest"
    unfolding o2_def using drop_step [OF d1] by simp
  have sc: "slice_buf buf o2 (o2 + length (scriptPubKey out)) = scriptPubKey out"
    using d2 by (rule slice_at) simp
  have e: "o2 + length (scriptPubKey out) = off + length bs"
    unfolding o2_def bs using lv by simp
  show ?thesis
    using rv rl sc nxt by (simp add: e Let_def)
qed

lemma parse_rebuild_outputs:
  assumes "rebuild_outputs outs = Inr bs" "drop off buf = bs @ rest"
  shows "parse_outputs buf off (length outs) = Inr (outs, off + length bs)"
  using assms
proof (induction outs arbitrary: bs off)
  case Nil
  then show ?case by simp
next
  case (Cons out outs)
  obtain b bs' where b: "rebuild_output out = Inr b" and bs': "rebuild_outputs outs = Inr bs'"
    and bs: "bs = b @ bs'"
    using Cons.prems(1) by (auto simp: bindE_Inr)
  have d0: "drop off buf = b @ (bs' @ rest)" using Cons.prems(2) bs by simp
  have d1: "drop (off + length b) buf = bs' @ rest" using drop_step [OF d0] .
  have "parse_outputs buf (off + length b) (length outs) = Inr (outs, off + length b + length bs')"
    using bs' d1 by (intro Cons.IH) auto
  then have "parse_outputs buf off (Suc (length outs)) = Inr (out # outs, off + length b + length bs')"
    by (intro parse_rebuild_output [OF b d0]) auto
  then show ?case using bs by (simp add: add.assoc)
qed




lemma length_writeUInt32LE: "writeUInt32LE v = Inr bs \<Longrightarrow> length bs = 4"
  by (auto simp: writeUInt32LE_def split: if_splits)

lemma length_writeInt32LE: "writeInt32LE v = Inr bs \<Longrightarrow> length bs = 4"
  by (auto simp: writeInt32LE_def split: if_splits)

lemma length_writeBigInt64LE: "writeBigInt64LE v = Inr bs \<Longrightarrow> length bs = 8"
  by (auto simp: writeBigInt64LE_def split: if_splits)

lemma writeVarInt_0: "writeVarInt 0 = Inr [0]"
  by (simp add: writeVarInt_def)

lemma parse_rebuild_bytes:
  assumes rb: "rebuild_bytes tx = Inr bs"
    and ids: "\<forall>i\<in>set (inputs tx). length (txid i) = 32"
    and nm: "normal_tx tx"
  shows "parse_from bs = Inr (tx\<lparr>raw := bs\<rparr>,
           length bs - (if js_bitand (version tx) 0x80000000 \<noteq> 0
                           \<and> versionGroupId tx = 0x892f2085 then 3 else 0))"
proof -
  let ?hb = "js_bitand (version tx) 0x80000000 \<noteq> 0"
  let ?ex = "version tx \<ge> 3 \<or> ?hb"
  let ?sap = "?hb \<and> versionGroupId tx = 0x892f2085"
  obtain versionBuf vgBuf inputCount ins outputCount outs lockTimeBuf expiryBuf sapling where
    w1: "writeInt32LE (version tx) = Inr versionBuf" and
    w2: "(if ?hb then writeUInt32LE (versionGroupId tx) else Inr []) = Inr vgBuf" and
    w3: "writeVarInt (int (length (inputs tx))) = Inr inputCount" and
    w4: "rebuild_inputs (inputs tx) = Inr ins" and
    w5: "writeVarInt (int (length (outputs tx))) = Inr outputCount" and
    w6: "rebuild_outputs (outputs tx) = Inr outs" and
    w7: "writeUInt32LE (lockTime tx) = Inr lockTimeBuf" and
    w8: "(if ?ex then writeUInt32LE (expiryHeight tx) else Inr []) = Inr expiryBuf" and
    w9: "(if ?sap
          then bindE (writeBigInt64LE (valueBalance tx)) (\<lambda>valueBuf.
               bindE (writeVarInt 0) (\<lambda>s1.
               bindE (writeVarInt 0) (\<lambda>s2.
               bindE (writeVarInt 0) (\<lambda>s3. Inr (valueBuf @ s1 @ s2 @ s3)))))
          else Inr []) = Inr sapling" and
    bs: "bs = versionBuf @ vgBuf @ inputCount @ ins @ outputCount @ outs @ lockTimeBuf
              @ expiryBuf @ sapling"
    using rb unfolding rebuild_bytes_def bindE_Inr by blast
  have l1: "length versionBuf = 4" using w1 by (rule length_writeInt32LE)
  have l7: "length lockTimeBuf = 4" using w7 by (rule length_writeUInt32LE)
  have d1: "drop 0 bs = versionBuf @ (vgBuf @ inputCount @ ins @ outputCount @ outs
              @ lockTimeBuf @ expiryBuf @ sapling)" using bs by simp
  have r1: "readInt32LE bs 0 = Inr (version tx)" by (rule read_write_Int32 [OF w1 d1])
  have d2: "drop 4 bs = vgBuf @ (inputCount @ ins @ outputCount @ outs
              @ lockTimeBuf @ expiryBuf @ sapling)" using drop_step [OF d1] l1 by simp
  define o2 where "o2 = 4 + length vgBuf"
  have r2: "(if ?hb then bindE (readUInt32LE bs 4) (\<lambda>g. Inr (g, 4 + 4)) else Inr (0, 4))
              = Inr (versionGroupId tx, o2)"
  proof (cases ?hb)
    case True
    then have w: "writeUInt32LE (versionGroupId tx) = Inr vgBuf" using w2 by simp
    have "readUInt32LE bs 4 = Inr (versionGroupId tx)" by (rule read_write_UInt32 [OF w d2])
    then show ?thesis using True length_writeUInt32LE [OF w] by (simp add: o2_def)
  next
    case False
    then have "vgBuf = []" using w2 by simp
    moreover have "versionGroupId tx = 0" using False nm by (simp add: normal_tx_def)
    ultimately show ?thesis using False by (simp add: o2_def)
  qed
  have d3: "drop o2 bs = inputCount @ (ins @ outputCount @ outs @ lockTimeBuf @ expiryBuf
              @ sapling)" unfolding o2_def using drop_step [OF d2] by simp
  define o3 where "o3 = o2 + length inputCount"
  have r3: "readVarInt bs o2 = Inr (int (length (inputs tx)), o3)"
    unfolding o3_def by (rule read_write_VarInt [OF w3 _ d3]) simp
  have d4: "drop o3 bs = ins @ (outputCount @ outs @ lockTimeBuf @ expiryBuf @ sapling)"
    unfolding o3_def using drop_step [OF d3] by simp
  define o4 where "o4 = o3 + length ins"
  have r4: "parse_inputs bs o3 (length (inputs tx)) = Inr (inputs tx, o4)"
    unfolding o4_def by (rule parse_rebuild_inputs [OF w4 ids d4])
  have d5: "drop o4 bs = outputCount @ (outs @ lockTimeBuf @ expiryBuf @ sapling)"
    unfolding o4_def using drop_step [OF d4] by simp
  define o5 where "o5 = o4 + length outputCount"
  have r5: "readVarInt bs o4 = Inr (int (length (outputs tx)), o5)"
    unfolding o5_def by (rule read_write_VarInt [OF w5 _ d5]) simp
  have d6: "drop o5 bs = outs @ (lockTimeBuf @ expiryBuf @ sapling)"
    unfolding o5_def using drop_step [OF d5] by simp
  define o6 where "o6 = o5 + length outs"
  have r6: "parse_outputs bs o5 (length (outputs tx)) = Inr (outputs tx, o6)"
    unfolding o6_def by (rule parse_rebuild_outputs [OF w6 d6])
  have d7: "drop o6 bs = lockTimeBuf @ (expiryBuf @ sapling)"
    unfolding o6_def using drop_step [OF d6] by simp
  have r7: "readUInt32LE bs o6 = Inr (lockTime tx)" by (rule read_write_UInt32 [OF w7 d7])
  have d8: "drop (o6 + 4) bs = expiryBuf @ sapling" using drop_step [OF d7] l7 by simp
  define o8 where "o8 = o6 + 4 + length expiryBuf"
  have r8: "(if ?ex then bindE (readUInt32LE bs (o6 + 4)) (\<lambda>e. Inr (e, o6 + 4 + 4))
             else Inr (0, o6 + 4)) = Inr (expiryHeight tx, o8)"
  proof (cases ?ex)
    case True
    then have w: "writeUInt32LE (expiryHeight tx) = Inr expiryBuf" using w8 by simp
    have "readUInt32LE bs (o6 + 4) = Inr (expiryHeight tx)" by (rule read_write_UInt32 [OF w d8])
    then show ?thesis using True length_writeUInt32LE [OF w] by (simp add: o8_def)
  next
    case False
    then have "expiryBuf = []" using w8 by simp
    moreover have "expiryHeight tx = 0" using False nm by (simp add: normal_tx_def)
    ultimately show ?thesis using False by (simp add: o8_def)
  qed
  have d9: "drop o8 bs = sapling" unfolding o8_def using drop_step [OF d8] by simp
  define o9 where "o9 = o8 + (if ?sap then 8 else 0)"
  have r9: "(if ?sap then bindE (readBigInt64LE bs o8) (\<lambda>b. Inr (b, o8 + 8)) else Inr (0, o8))
             = Inr (valueBalance tx, o9)"
  proof (cases ?sap)
    case True
    then obtain valueBuf where w: "writeBigInt64LE (valueBalance tx) = Inr valueBuf"
      and sp: "sapling = valueBuf @ [0, 0, 0]"
      using w9 by (auto simp: bindE_Inr writeVarInt_0)
    have "drop o8 bs = valueBuf @ [0, 0, 0]" using d9 sp by simp
    then have "readBigInt64LE bs o8 = Inr (valueBalance tx)" by (rule read_write_BigInt64 [OF w])
    then show ?thesis using True by (simp add: o9_def)
  next
    case False
    then have "valueBalance tx = 0" using nm by (simp add: normal_tx_def)
    then show ?thesis using False by (auto simp: o9_def)
  qed
  have len: "o9 = length bs - (if ?sap then 3 else 0)"
  proof -
    have a: "length bs = o8 + length sapling"
      unfolding o8_def o6_def o5_def o4_def o3_def o2_def bs using l1 l7 by simp
    show ?thesis
    proof (cases ?sap)
      case True
      then obtain valueBuf where w: "writeBigInt64LE (valueBalance tx) = Inr valueBuf"
        and sp: "sapling = valueBuf @ [0, 0, 0]"
        using w9 by (auto simp: bindE_Inr writeVarInt_0)
      show ?thesis using True a sp length_writeBigInt64LE [OF w] by (simp add: o9_def)
    next
      case False
      then have "sapling = []" using w9 by auto
      then show ?thesis using False a by (auto simp: o9_def)
    qed
  qed
  have "parse_from bs = Inr (tx\<lparr>raw := bs\<rparr>, o9)"
    unfolding parse_from_def
    by (simp only: r1 bindE_Inr_simp r2 prod.case r3 nat_int r4 r5 r6 r7 r8 r9) simp
  then show ?thesis using len by simp
qed


section \<open>What a successful parse guarantees\<close>


lemma readUIntLE_ok:
  "readUIntLE w buf off = Inr u \<Longrightarrow> off + w \<le> length buf \<and> u < 256 ^ w"
proof -
  assume h: "readUIntLE w buf off = Inr u"
  then have b: "off + w \<le> length buf" and u: "u = le_nat (take w (drop off buf))"
    by (auto simp: readUIntLE_def split: if_splits)
  have "length (take w (drop off buf)) = w" using b by simp
  then have "u < 256 ^ w" using le_nat_bound [of "take w (drop off buf)"] u by simp
  with b show ?thesis by simp
qed

lemma readUInt16LE_ok:
  "readUInt16LE buf off = Inr v \<Longrightarrow> off + 2 \<le> length buf \<and> u32 v"
proof -
  assume "readUInt16LE buf off = Inr v"
  then obtain u where "readUIntLE 2 buf off = Inr u" and v: "v = int u"
    by (auto simp: readUInt16LE_def bindE_Inr)
  from readUIntLE_ok [OF this(1)] v show ?thesis by (simp add: u32_def)
qed

lemma readUInt32LE_ok:
  "readUInt32LE buf off = Inr v \<Longrightarrow> off + 4 \<le> length buf \<and> u32 v"
proof -
  assume "readUInt32LE buf off = Inr v"
  then obtain u where "readUIntLE 4 buf off = Inr u" and v: "v = int u"
    by (auto simp: readUInt32LE_def bindE_Inr)
  from readUIntLE_ok [OF this(1)] v show ?thesis by (simp add: u32_def)
qed

lemma readInt32LE_ok:
  "readInt32LE buf off = Inr v \<Longrightarrow> off + 4 \<le> length buf \<and> - (2 ^ 31) \<le> v \<and> v < 2 ^ 31"
proof -
  assume "readInt32LE buf off = Inr v"
  then obtain u where "readUIntLE 4 buf off = Inr u" and v: "v = signed_of 4 u"
    by (auto simp: readInt32LE_def bindE_Inr)
  from readUIntLE_ok [OF this(1)] v show ?thesis by (auto simp: signed_of_def)
qed

lemma readBigInt64LE_ok:
  "readBigInt64LE buf off = Inr v \<Longrightarrow> off + 8 \<le> length buf \<and> i64 v"
proof -
  assume "readBigInt64LE buf off = Inr v"
  then obtain u where "readUIntLE 8 buf off = Inr u" and v: "v = signed_of 8 u"
    by (auto simp: readBigInt64LE_def bindE_Inr)
  from readUIntLE_ok [OF this(1)] v show ?thesis by (auto simp: signed_of_def i64_def)
qed

lemma readVarInt_ok:
  assumes "readVarInt buf off = Inr (v, off')"
  shows "u32 v \<and> off < off' \<and> off < length buf"
proof (cases "byte_at buf off")
  case None
  then show ?thesis using assms readUInt32LE_ok [of buf "off + 1" v]
    by (auto simp: readVarInt_def bindE_Inr byte_at_def split: if_splits)
next
  case (Some first)
  then have l: "off < length buf" by (auto simp: byte_at_def split: if_splits)
  have f: "uint first < 256" using uint_lt2p [of first] by simp
  have "u32 v \<and> off < off'"
    using assms Some f readUInt32LE_ok [of buf "off + 1" v] readUInt16LE_ok [of buf "off + 1" v]
    by (auto simp: readVarInt_def bindE_Inr u32_def split: if_splits)
  with l show ?thesis by simp
qed

lemma length_slice: "b \<le> length buf \<Longrightarrow> a \<le> b \<Longrightarrow> length (slice_buf buf a b) = b - a"
  by (simp add: slice_buf_def)

lemma length_slice_le: "length (slice_buf buf a b) \<le> b - a"
  by (simp add: slice_buf_def)

lemma parse_inputs_ok:
  "parse_inputs buf off n = Inr (ins, off') \<Longrightarrow>
     length ins = n \<and> (\<forall>i \<in> set ins. wf_input i) \<and> off \<le> off'"
proof (induction n arbitrary: off ins)
  case 0
  then show ?case by simp
next
  case (Suc n)
  obtain vout scriptLen o2 sequence rest where
    v: "readUInt32LE buf (off + 32) = Inr vout" and
    l: "readVarInt buf (off + 32 + 4) = Inr (scriptLen, o2)" and
    s: "readUInt32LE buf (o2 + nat scriptLen) = Inr sequence" and
    r: "parse_inputs buf (o2 + nat scriptLen + 4) n = Inr (rest, off')" and
    i: "ins = \<lparr>txid = slice_buf buf off (off + 32), vout = vout,
                scriptSig = slice_buf buf o2 (o2 + nat scriptLen), sequence = sequence\<rparr> # rest"
    using Suc.prems by (auto simp: bindE_Inr Let_def)
  have ih: "length rest = n \<and> (\<forall>i \<in> set rest. wf_input i) \<and> o2 + nat scriptLen + 4 \<le> off'"
    using r by (rule Suc.IH)
  have "off + 32 \<le> length buf" using readUInt32LE_ok [OF v] by simp
  then have t: "length (slice_buf buf off (off + 32)) = 32" by (simp add: length_slice)
  have sl: "u32 scriptLen" "off + 32 + 4 < o2" using readVarInt_ok [OF l] by simp_all
  have "length (slice_buf buf o2 (o2 + nat scriptLen)) \<le> nat scriptLen"
    using length_slice_le [of buf o2 "o2 + nat scriptLen"] by simp
  moreover have "nat scriptLen \<le> 4294967295" using sl(1) by (simp add: u32_def nat_le_iff)
  ultimately have sc: "u32 (int (length (slice_buf buf o2 (o2 + nat scriptLen))))"
    by (simp add: u32_def)
  have "wf_input \<lparr>txid = slice_buf buf off (off + 32), vout = vout,
                scriptSig = slice_buf buf o2 (o2 + nat scriptLen), sequence = sequence\<rparr>"
    using t sc readUInt32LE_ok [OF v] readUInt32LE_ok [OF s] by (simp add: wf_input_def)
  then show ?case using ih i sl(2) by simp
qed

lemma parse_outputs_ok:
  "parse_outputs buf off n = Inr (outs, off') \<Longrightarrow>
     length outs = n \<and> (\<forall>out \<in> set outs. wf_output out) \<and> off \<le> off'"
proof (induction n arbitrary: off outs)
  case 0
  then show ?case by simp
next
  case (Suc n)
  obtain v scriptLen o2 rest where
    v: "readBigInt64LE buf off = Inr v" and
    l: "readVarInt buf (off + 8) = Inr (scriptLen, o2)" and
    r: "parse_outputs buf (o2 + nat scriptLen) n = Inr (rest, off')" and
    i: "outs = \<lparr>out_value = v, scriptPubKey = slice_buf buf o2 (o2 + nat scriptLen)\<rparr> # rest"
    using Suc.prems by (auto simp: bindE_Inr Let_def)
  have ih: "length rest = n \<and> (\<forall>out \<in> set rest. wf_output out) \<and> o2 + nat scriptLen \<le> off'"
    using r by (rule Suc.IH)
  have sl: "u32 scriptLen" "off + 8 < o2" using readVarInt_ok [OF l] by simp_all
  have "length (slice_buf buf o2 (o2 + nat scriptLen)) \<le> nat scriptLen"
    using length_slice_le [of buf o2 "o2 + nat scriptLen"] by simp
  moreover have "nat scriptLen \<le> 4294967295" using sl(1) by (simp add: u32_def nat_le_iff)
  ultimately have sc: "u32 (int (length (slice_buf buf o2 (o2 + nat scriptLen))))"
    by (simp add: u32_def)
  have "wf_output \<lparr>out_value = v, scriptPubKey = slice_buf buf o2 (o2 + nat scriptLen)\<rparr>"
    using sc readBigInt64LE_ok [OF v] by (simp add: wf_output_def)
  then show ?case using ih i sl(2) by simp
qed




lemma parse_from_ok:
  assumes "parse_from buf = Inr (tx, n)"
  shows "wf_tx tx \<and> normal_tx tx \<and> raw tx = buf \<and> n \<le> length buf"
proof -
  obtain ver vg o1 inputCount o2 ins o3 outputCount o4 outs o5 lock ex o6 vb where
    r1: "readInt32LE buf 0 = Inr ver" and
    r2: "(if js_bitand ver 0x80000000 \<noteq> 0
          then bindE (readUInt32LE buf 4) (\<lambda>g. Inr (g, 4 + 4)) else Inr (0, 4)) = Inr (vg, o1)" and
    r3: "readVarInt buf o1 = Inr (inputCount, o2)" and
    r4: "parse_inputs buf o2 (nat inputCount) = Inr (ins, o3)" and
    r5: "readVarInt buf o3 = Inr (outputCount, o4)" and
    r6: "parse_outputs buf o4 (nat outputCount) = Inr (outs, o5)" and
    r7: "readUInt32LE buf o5 = Inr lock" and
    r8: "(if ver \<ge> 3 \<or> js_bitand ver 0x80000000 \<noteq> 0
          then bindE (readUInt32LE buf (o5 + 4)) (\<lambda>e. Inr (e, o5 + 4 + 4))
          else Inr (0, o5 + 4)) = Inr (ex, o6)" and
    r9: "(if js_bitand ver 0x80000000 \<noteq> 0 \<and> vg = 0x892f2085
          then bindE (readBigInt64LE buf o6) (\<lambda>b. Inr (b, o6 + 8))
          else Inr (0, o6)) = Inr (vb, n)" and
    tx: "tx = \<lparr>version = ver, versionGroupId = vg, inputs = ins, outputs = outs,
               lockTime = lock, expiryHeight = ex, valueBalance = vb, raw = buf\<rparr>"
    using assms by (auto simp: parse_from_def bindE_Inr simp del: One_nat_def)
  have v: "- (2 ^ 31) \<le> ver \<and> ver < 2 ^ 31" using readInt32LE_ok [OF r1] by simp
  have g: "u32 vg \<and> (js_bitand ver 0x80000000 = 0 \<longrightarrow> vg = 0)"
    using r2 readUInt32LE_ok [of buf 4 vg] by (auto simp: bindE_Inr u32_def split: if_splits)
  have ic: "u32 inputCount" using readVarInt_ok [OF r3] by simp
  have i: "length ins = nat inputCount \<and> (\<forall>i \<in> set ins. wf_input i)"
    using parse_inputs_ok [OF r4] by simp
  have oc: "u32 outputCount" using readVarInt_ok [OF r5] by simp
  have o: "length outs = nat outputCount \<and> (\<forall>out \<in> set outs. wf_output out)"
    using parse_outputs_ok [OF r6] by simp
  have l: "u32 lock \<and> o5 + 4 \<le> length buf" using readUInt32LE_ok [OF r7] by simp
  have e: "u32 ex \<and> o6 \<le> length buf
           \<and> (\<not> (ver \<ge> 3 \<or> js_bitand ver 0x80000000 \<noteq> 0) \<longrightarrow> ex = 0)"
    using r8 l readUInt32LE_ok [of buf "o5 + 4" ex]
    by (auto simp: bindE_Inr u32_def split: if_splits)
  have b: "i64 vb \<and> n \<le> length buf
           \<and> (\<not> (js_bitand ver 0x80000000 \<noteq> 0 \<and> vg = 0x892f2085) \<longrightarrow> vb = 0)"
    using r9 e readBigInt64LE_ok [of buf o6 vb]
    by (auto simp: bindE_Inr i64_def split: if_splits)
  have li: "u32 (int (length ins))" using i ic by (simp add: u32_def)
  have lo: "u32 (int (length outs))" using o oc by (simp add: u32_def)
  have "wf_tx tx" unfolding wf_tx_def tx using v g li i lo o l e b by simp
  moreover have "normal_tx tx" unfolding normal_tx_def tx using g e b by simp
  ultimately show ?thesis using b tx by simp
qed

text \<open>Reads on a truncated buffer: whatever succeeds there succeeds alike on the whole.\<close>

lemma readUIntLE_take:
  "readUIntLE w (take k buf) off = Inr u \<Longrightarrow> readUIntLE w buf off = Inr u"
proof -
  assume h: "readUIntLE w (take k buf) off = Inr u"
  then have b: "off + w \<le> length (take k buf)"
    and u: "u = le_nat (take w (drop off (take k buf)))"
    by (auto simp: readUIntLE_def split: if_splits)
  have k: "off + w \<le> k" "off + w \<le> length buf" using b by simp_all
  have "take w (drop off (take k buf)) = take w (drop off buf)"
    using k by (simp add: drop_take min_def)
  then show ?thesis using u k by (simp add: readUIntLE_def)
qed

lemma readUInt16LE_take:
  "readUInt16LE (take k buf) off = Inr v \<Longrightarrow> readUInt16LE buf off = Inr v"
  by (auto simp: readUInt16LE_def bindE_Inr dest: readUIntLE_take)

lemma readUInt32LE_take:
  "readUInt32LE (take k buf) off = Inr v \<Longrightarrow> readUInt32LE buf off = Inr v"
  by (auto simp: readUInt32LE_def bindE_Inr dest: readUIntLE_take)

lemma readInt32LE_take:
  "readInt32LE (take k buf) off = Inr v \<Longrightarrow> readInt32LE buf off = Inr v"
  by (auto simp: readInt32LE_def bindE_Inr dest: readUIntLE_take)

lemma readBigInt64LE_take:
  "readBigInt64LE (take k buf) off = Inr v \<Longrightarrow> readBigInt64LE buf off = Inr v"
  by (auto simp: readBigInt64LE_def bindE_Inr dest: readUIntLE_take)

lemma readVarInt_take:
  assumes "readVarInt (take k buf) off = Inr r"
  shows "readVarInt buf off = Inr r"
proof -
  obtain v off' where r: "r = (v, off')" by (cases r)
  have l: "off < length (take k buf)" using readVarInt_ok [of "take k buf" off v off'] assms r by simp
  then have b: "byte_at (take k buf) off = Some (buf ! off)" "byte_at buf off = Some (buf ! off)"
    by (simp_all add: byte_at_def)
  show ?thesis
    using assms b readUInt16LE_take [of k buf "off + 1"] readUInt32LE_take [of k buf "off + 1"]
    by (auto simp: readVarInt_def bindE_Inr split: if_splits)
qed

lemma parse_inputs_take:
  "parse_inputs (take k buf) off n = Inr (ins, off') \<Longrightarrow>
     \<exists>ins'. parse_inputs buf off n = Inr (ins', off')"
proof (induction n arbitrary: off ins)
  case 0
  then show ?case by simp
next
  case (Suc n)
  obtain vout scriptLen o2 sequence rest where
    v: "readUInt32LE (take k buf) (off + 32) = Inr vout" and
    l: "readVarInt (take k buf) (off + 32 + 4) = Inr (scriptLen, o2)" and
    s: "readUInt32LE (take k buf) (o2 + nat scriptLen) = Inr sequence" and
    r: "parse_inputs (take k buf) (o2 + nat scriptLen + 4) n = Inr (rest, off')"
    using Suc.prems by (auto simp: bindE_Inr Let_def)
  obtain rest' where "parse_inputs buf (o2 + nat scriptLen + 4) n = Inr (rest', off')"
    using Suc.IH [OF r] by blast
  then show ?case
    using readUInt32LE_take [OF v] readVarInt_take [OF l] readUInt32LE_take [OF s]
    by (simp add: Let_def)
qed

lemma parse_outputs_take:
  "parse_outputs (take k buf) off n = Inr (outs, off') \<Longrightarrow>
     \<exists>outs'. parse_outputs buf off n = Inr (outs', off')"
proof (induction n arbitrary: off outs)
  case 0
  then show ?case by simp
next
  case (Suc n)
  obtain v scriptLen o2 rest where
    v: "readBigInt64LE (take k buf) off = Inr v" and
    l: "readVarInt (take k buf) (off + 8) = Inr (scriptLen, o2)" and
    r: "parse_outputs (take k buf) (o2 + nat scriptLen) n = Inr (rest, off')"
    using Suc.prems by (auto simp: bindE_Inr Let_def)
  obtain rest' where "parse_outputs buf (o2 + nat scriptLen) n = Inr (rest', off')"
    using Suc.IH [OF r] by blast
  then show ?case
    using readBigInt64LE_take [OF v] readVarInt_take [OF l]
    by (simp add: Let_def)
qed




lemma parse_from_take:
  assumes "parse_from (take k buf) = Inr (tx, n)"
  shows "\<exists>tx'. parse_from buf = Inr (tx', n)"
proof -
  let ?b = "take k buf"
  obtain ver vg o1 inputCount o2 ins o3 outputCount o4 outs o5 lock ex o6 vb where
    r1: "readInt32LE ?b 0 = Inr ver" and
    r2: "(if js_bitand ver 0x80000000 \<noteq> 0
          then bindE (readUInt32LE ?b 4) (\<lambda>g. Inr (g, 4 + 4)) else Inr (0, 4)) = Inr (vg, o1)" and
    r3: "readVarInt ?b o1 = Inr (inputCount, o2)" and
    r4: "parse_inputs ?b o2 (nat inputCount) = Inr (ins, o3)" and
    r5: "readVarInt ?b o3 = Inr (outputCount, o4)" and
    r6: "parse_outputs ?b o4 (nat outputCount) = Inr (outs, o5)" and
    r7: "readUInt32LE ?b o5 = Inr lock" and
    r8: "(if ver \<ge> 3 \<or> js_bitand ver 0x80000000 \<noteq> 0
          then bindE (readUInt32LE ?b (o5 + 4)) (\<lambda>e. Inr (e, o5 + 4 + 4))
          else Inr (0, o5 + 4)) = Inr (ex, o6)" and
    r9: "(if js_bitand ver 0x80000000 \<noteq> 0 \<and> vg = 0x892f2085
          then bindE (readBigInt64LE ?b o6) (\<lambda>b. Inr (b, o6 + 8))
          else Inr (0, o6)) = Inr (vb, n)"
    using assms by (auto simp: parse_from_def bindE_Inr simp del: One_nat_def)
  have s1: "readInt32LE buf 0 = Inr ver" using r1 by (rule readInt32LE_take)
  have s2: "(if js_bitand ver 0x80000000 \<noteq> 0
          then bindE (readUInt32LE buf 4) (\<lambda>g. Inr (g, 4 + 4)) else Inr (0, 4)) = Inr (vg, o1)"
    using r2 readUInt32LE_take [of k buf 4] by (auto simp: bindE_Inr split: if_splits)
  have s3: "readVarInt buf o1 = Inr (inputCount, o2)" using r3 by (rule readVarInt_take)
  obtain ins' where s4: "parse_inputs buf o2 (nat inputCount) = Inr (ins', o3)"
    using parse_inputs_take [OF r4] by blast
  have s5: "readVarInt buf o3 = Inr (outputCount, o4)" using r5 by (rule readVarInt_take)
  obtain outs' where s6: "parse_outputs buf o4 (nat outputCount) = Inr (outs', o5)"
    using parse_outputs_take [OF r6] by blast
  have s7: "readUInt32LE buf o5 = Inr lock" using r7 by (rule readUInt32LE_take)
  have s8: "(if ver \<ge> 3 \<or> js_bitand ver 0x80000000 \<noteq> 0
          then bindE (readUInt32LE buf (o5 + 4)) (\<lambda>e. Inr (e, o5 + 4 + 4))
          else Inr (0, o5 + 4)) = Inr (ex, o6)"
    using r8 readUInt32LE_take [of k buf "o5 + 4"] by (auto simp: bindE_Inr split: if_splits)
  have s9: "(if js_bitand ver 0x80000000 \<noteq> 0 \<and> vg = 0x892f2085
          then bindE (readBigInt64LE buf o6) (\<lambda>b. Inr (b, o6 + 8))
          else Inr (0, o6)) = Inr (vb, n)"
    using r9 readBigInt64LE_take [of k buf o6] by (auto simp: bindE_Inr split: if_splits)
  show ?thesis
    unfolding parse_from_def
    by (simp only: s1 bindE_Inr_simp s2 prod.case s3 s4 s5 s6 s7 s8 s9) simp
qed

lemma bindE_Inl: "(bindE m f = Inl e) = (m = Inl e \<or> (\<exists>x. m = Inr x \<and> f x = Inl e))"
  by (cases m) (simp_all add: bindE_def)

lemma readUIntLE_err: "readUIntLE w buf off = Inl e \<Longrightarrow> e = RangeError"
  by (auto simp: readUIntLE_def split: if_splits)

lemma readUInt16LE_err: "readUInt16LE buf off = Inl e \<Longrightarrow> e = RangeError"
  by (auto simp: readUInt16LE_def bindE_Inl dest: readUIntLE_err)

lemma readUInt32LE_err: "readUInt32LE buf off = Inl e \<Longrightarrow> e = RangeError"
  by (auto simp: readUInt32LE_def bindE_Inl dest: readUIntLE_err)

lemma readInt32LE_err: "readInt32LE buf off = Inl e \<Longrightarrow> e = RangeError"
  by (auto simp: readInt32LE_def bindE_Inl dest: readUIntLE_err)

lemma readBigInt64LE_err: "readBigInt64LE buf off = Inl e \<Longrightarrow> e = RangeError"
  by (auto simp: readBigInt64LE_def bindE_Inl dest: readUIntLE_err)

lemma readVarInt_err: "readVarInt buf off = Inl e \<Longrightarrow> e = RangeError"
  by (auto simp: readVarInt_def bindE_Inl split: option.splits if_splits
      dest: readUInt16LE_err readUInt32LE_err)

lemma parse_inputs_err: "parse_inputs buf off n = Inl e \<Longrightarrow> e = RangeError"
proof (induction n arbitrary: off)
  case 0
  then show ?case by simp
next
  case (Suc n)
  then show ?case
    by (auto simp: bindE_Inl Let_def dest: readUInt32LE_err readVarInt_err)
qed

lemma parse_outputs_err: "parse_outputs buf off n = Inl e \<Longrightarrow> e = RangeError"
proof (induction n arbitrary: off)
  case 0
  then show ?case by simp
next
  case (Suc n)
  then show ?case
    by (auto simp: bindE_Inl Let_def dest: readBigInt64LE_err readVarInt_err)
qed

lemma parse_from_err: "parse_from buf = Inl e \<Longrightarrow> e = RangeError"
  by (auto simp: parse_from_def bindE_Inl split: if_splits
      dest: readInt32LE_err readUInt32LE_err readVarInt_err readBigInt64LE_err
        parse_inputs_err parse_outputs_err)

lemma truncated_parse_fails:
  assumes "parse_from buf = Inr (tx, n)" "k < n"
  shows "parse_from (take k buf) = Inl RangeError"
proof (cases "parse_from (take k buf)")
  case (Inl e)
  then show ?thesis using parse_from_err [of "take k buf" e] by simp
next
  case (Inr r)
  obtain tx' n' where r: "r = (tx', n')" by (cases r)
  have "n' \<le> length (take k buf)" using parse_from_ok [of "take k buf" tx' n'] Inr r by simp
  then have "n' \<le> k" by simp
  moreover obtain tx'' where "parse_from buf = Inr (tx'', n')"
    using parse_from_take [of k buf tx' n'] Inr r by auto
  then have "n' = n" using assms(1) by simp
  ultimately show ?thesis using assms(2) by simp
qed


section \<open>The parser stays inside the declared extent\<close>

lemma then_at_Ends [simp]: "then_at (Ends n) f = f n"
  by (simp add: then_at_def)

lemma then_at_PastEnd [simp]: "then_at PastEnd f = PastEnd"
  by (simp add: then_at_def)

lemma then_at_Wide [simp]: "then_at Wide f = Wide"
  by (simp add: then_at_def)

lemma fixed_field_fits: "off + w \<le> length buf \<Longrightarrow> fixed_field buf off w = Ends (off + w)"
  by (simp add: fixed_field_def)

lemma le_nat_append: "le_nat (a @ b) = le_nat a + 256 ^ length a * le_nat b"
  by (induction a) (simp_all add: algebra_simps)

lemma le_nat_take_8:
  assumes "8 \<le> length xs"
  shows "le_nat (take 8 xs) = le_nat (take 4 xs) + 4294967296 * le_nat (take 4 (drop 4 xs))"
proof -
  have "take 8 xs = take 4 xs @ take 4 (drop 4 xs)" using take_add [of 4 4 xs] by simp
  moreover have "length (take 4 xs) = 4" using assms by simp
  ultimately show ?thesis using le_nat_append [of "take 4 xs" "take 4 (drop 4 xs)"] by simp
qed

text \<open>
  A length prefix that the parser reads inside the buffer is the declared one,
  unless the declared one holds \<open>2 ^ 32\<close> or more.
\<close>

lemma readVarInt_declared:
  assumes r: "readVarInt buf off = Inr (v, off')" and b: "off' \<le> length buf"
  shows "declared_prefix buf off = Inl Wide \<or> declared_prefix buf off = Inr (nat v, off')"
proof -
  have "off < length buf" using readVarInt_ok [OF r] by simp
  then have f: "byte_at buf off = Some (buf ! off)" by (simp add: byte_at_def)
  let ?first = "buf ! off"
  let ?xs = "drop (off + 1) buf"
  consider (one) "?first < 0xfd" | (three) "?first = 0xfd" | (five) "?first = 0xfe"
    | (nine) "\<not> ?first < 0xfd" "?first \<noteq> 0xfd" "?first \<noteq> 0xfe" by blast
  then show ?thesis
  proof cases
    case one
    have "unat ?first < 256" by (rule byte_less_256)
    then have "\<not> (4294967296::nat) \<le> unat ?first" by simp
    moreover have "v = uint ?first" "off' = off + 1"
      using r f one by (simp_all add: readVarInt_def)
    ultimately show ?thesis using f one by (simp add: declared_prefix_def declared_varint_def)
  next
    case three
    then obtain u where u: "readUIntLE 2 buf (off + 1) = Inr u" and v: "v = int u"
      and o: "off' = off + 3"
      using r f by (auto simp: readVarInt_def readUInt16LE_def bindE_Inr)
    have l: "off + 3 \<le> length buf" using readUIntLE_ok [OF u] by simp
    then have e: "u = le_nat (take 2 ?xs)" using u by (simp add: readUIntLE_def)
    have "u < 256 ^ 2" using readUIntLE_ok [OF u] by simp
    then have "\<not> (4294967296::nat) \<le> le_nat (take 2 ?xs)" using e by simp
    then show ?thesis using f three l e v o by (simp add: declared_prefix_def declared_varint_def)
  next
    case five
    then obtain u where u: "readUIntLE 4 buf (off + 1) = Inr u" and v: "v = int u"
      and o: "off' = off + 5"
      using r f by (auto simp: readVarInt_def readUInt32LE_def bindE_Inr)
    have l: "off + 5 \<le> length buf" using readUIntLE_ok [OF u] by simp
    then have e: "u = le_nat (take 4 ?xs)" using u by (simp add: readUIntLE_def)
    have "u < 256 ^ 4" using readUIntLE_ok [OF u] by simp
    then have "\<not> (4294967296::nat) \<le> le_nat (take 4 ?xs)" using e by simp
    then show ?thesis using f five l e v o by (simp add: declared_prefix_def declared_varint_def)
  next
    case nine
    then obtain u where u: "readUIntLE 4 buf (off + 1) = Inr u" and v: "v = int u"
      and o: "off' = off + 9"
      using r f by (auto simp: readVarInt_def readUInt32LE_def bindE_Inr)
    have l: "off + 9 \<le> length buf" using b o by simp
    then have e: "u = le_nat (take 4 ?xs)" using u by (simp add: readUIntLE_def)
    have "8 \<le> length ?xs" using l by simp
    note s = le_nat_take_8 [OF this]
    have d: "declared_varint buf off = Some (le_nat (take 8 ?xs), 9)"
      using f nine l by (simp add: declared_varint_def)
    show ?thesis
    proof (cases "4294967296 \<le> le_nat (take 8 ?xs)")
      case True
      then show ?thesis using d by (simp add: declared_prefix_def)
    next
      case False
      then have "le_nat (take 4 (drop 4 ?xs)) = 0" using s by simp
      then have "le_nat (take 8 ?xs) = u" using s e by simp
      then show ?thesis using d False v o by (simp add: declared_prefix_def)
    qed
  qed
qed

lemma parse_inputs_declared:
  "parse_inputs buf off n = Inr (ins, off') \<Longrightarrow> off' \<le> length buf \<Longrightarrow>
     declared_inputs buf off n = Ends off' \<or> declared_inputs buf off n = Wide"
proof (induction n arbitrary: off ins)
  case 0
  then show ?case by simp
next
  case (Suc n)
  obtain vout scriptLen o2 sequence rest where
    v: "readUInt32LE buf (off + 32) = Inr vout" and
    l: "readVarInt buf (off + 32 + 4) = Inr (scriptLen, o2)" and
    s: "readUInt32LE buf (o2 + nat scriptLen) = Inr sequence" and
    r: "parse_inputs buf (o2 + nat scriptLen + 4) n = Inr (rest, off')"
    using Suc.prems(1) by (auto simp: bindE_Inr Let_def)
  have ih: "declared_inputs buf (o2 + nat scriptLen + 4) n = Ends off'
            \<or> declared_inputs buf (o2 + nat scriptLen + 4) n = Wide"
    using r Suc.prems(2) by (rule Suc.IH)
  have a: "off + 36 \<le> length buf" using readUInt32LE_ok [OF v] by simp
  have c: "o2 + nat scriptLen + 4 \<le> length buf" using readUInt32LE_ok [OF s] by simp
  then have o2: "o2 \<le> length buf" by simp
  have l': "readVarInt buf (36 + off) = Inr (scriptLen, o2)" using l by (simp add: add.commute)
  have p: "declared_prefix buf (36 + off) = Inl Wide
           \<or> declared_prefix buf (36 + off) = Inr (nat scriptLen, o2)"
    using l' o2 by (rule readVarInt_declared)
  from p show ?case
  proof
    assume "declared_prefix buf (36 + off) = Inl Wide"
    then show ?thesis using a by (simp add: fixed_field_def)
  next
    assume "declared_prefix buf (36 + off) = Inr (nat scriptLen, o2)"
    then have "declared_inputs buf off (Suc n) = declared_inputs buf (o2 + nat scriptLen + 4) n"
      using a c by (simp add: fixed_field_def)
    then show ?thesis using ih by simp
  qed
qed

lemma parse_outputs_declared:
  "parse_outputs buf off n = Inr (outs, off') \<Longrightarrow> off' \<le> length buf \<Longrightarrow>
     declared_outputs buf off n = Ends off' \<or> declared_outputs buf off n = Wide"
proof (induction n arbitrary: off outs)
  case 0
  then show ?case by simp
next
  case (Suc n)
  obtain v scriptLen o2 rest where
    v: "readBigInt64LE buf off = Inr v" and
    l: "readVarInt buf (off + 8) = Inr (scriptLen, o2)" and
    r: "parse_outputs buf (o2 + nat scriptLen) n = Inr (rest, off')"
    using Suc.prems(1) by (auto simp: bindE_Inr Let_def)
  have ih: "declared_outputs buf (o2 + nat scriptLen) n = Ends off'
            \<or> declared_outputs buf (o2 + nat scriptLen) n = Wide"
    using r Suc.prems(2) by (rule Suc.IH)
  have a: "off + 8 \<le> length buf" using readBigInt64LE_ok [OF v] by simp
  have "o2 + nat scriptLen \<le> off'" using parse_outputs_ok [OF r] by simp
  then have c: "o2 + nat scriptLen \<le> length buf" using Suc.prems(2) by simp
  then have o2: "o2 \<le> length buf" by simp
  have p: "declared_prefix buf (off + 8) = Inl Wide
           \<or> declared_prefix buf (off + 8) = Inr (nat scriptLen, o2)"
    using l o2 by (rule readVarInt_declared)
  from p show ?case
  proof
    assume "declared_prefix buf (off + 8) = Inl Wide"
    then show ?thesis using a by (simp add: fixed_field_def)
  next
    assume "declared_prefix buf (off + 8) = Inr (nat scriptLen, o2)"
    then have "declared_outputs buf off (Suc n) = declared_outputs buf (o2 + nat scriptLen) n"
      using a c by (simp add: fixed_field_def)
    then show ?thesis using ih by simp
  qed
qed

lemma parse_from_declared:
  assumes "parse_from buf = Inr (tx, n)"
  shows "declared_extent buf = Ends n \<or> declared_extent buf = Wide"
proof -
  obtain ver vg o1 inputCount o2 ins o3 outputCount o4 outs o5 lock ex o6 vb where
    r1: "readInt32LE buf 0 = Inr ver" and
    r2: "(if js_bitand ver 0x80000000 \<noteq> 0
          then bindE (readUInt32LE buf 4) (\<lambda>g. Inr (g, 4 + 4)) else Inr (0, 4)) = Inr (vg, o1)" and
    r3: "readVarInt buf o1 = Inr (inputCount, o2)" and
    r4: "parse_inputs buf o2 (nat inputCount) = Inr (ins, o3)" and
    r5: "readVarInt buf o3 = Inr (outputCount, o4)" and
    r6: "parse_outputs buf o4 (nat outputCount) = Inr (outs, o5)" and
    r7: "readUInt32LE buf o5 = Inr lock" and
    r8: "(if ver \<ge> 3 \<or> js_bitand ver 0x80000000 \<noteq> 0
          then bindE (readUInt32LE buf (o5 + 4)) (\<lambda>e. Inr (e, o5 + 4 + 4))
          else Inr (0, o5 + 4)) = Inr (ex, o6)" and
    r9: "(if js_bitand ver 0x80000000 \<noteq> 0 \<and> vg = 0x892f2085
          then bindE (readBigInt64LE buf o6) (\<lambda>b. Inr (b, o6 + 8))
          else Inr (0, o6)) = Inr (vb, n)"
    using assms by (auto simp: parse_from_def bindE_Inr simp del: One_nat_def)
  have l0: "4 \<le> length buf" using readInt32LE_ok [OF r1] by simp
  have ver: "ver = signed_of 4 (le_nat (take 4 buf))"
    using r1 l0 by (simp add: readInt32LE_def readUIntLE_def)
  have hb: "(js_bitand ver 0x80000000 \<noteq> 0) = (ver < 0)"
    using readInt32LE_ok [OF r1] high_bit_sign [of ver] by simp
  have l5: "o5 + 4 \<le> length buf" using readUInt32LE_ok [OF r7] by simp
  have l4: "o4 \<le> o5" using parse_outputs_ok [OF r6] by simp
  have l3: "o3 < o4" using readVarInt_ok [OF r5] by simp
  have l2: "o2 \<le> o3" using parse_inputs_ok [OF r4] by simp
  have s1: "(if ver < 0 then fixed_field buf 4 4 else Ends 4) = Ends o1"
    using r2 hb readUInt32LE_ok [of buf 4 vg]
    by (auto simp: bindE_Inr fixed_field_def split: if_splits)
  have g: "ver < 0 \<longrightarrow> vg = int (le_nat (take 4 (drop 4 buf)))"
    using r2 hb by (auto simp: bindE_Inr readUInt32LE_def readUIntLE_def split: if_splits)
  have s8: "(if ver \<ge> 3 \<or> ver < 0 then fixed_field buf (o5 + 4) 4 else Ends (o5 + 4)) = Ends o6"
    using r8 hb readUInt32LE_ok [of buf "o5 + 4" ex]
    by (auto simp: bindE_Inr fixed_field_def split: if_splits)
  have s9: "(if ver < 0 \<and> le_nat (take 4 (drop 4 buf)) = 0x892f2085
             then fixed_field buf o6 8 else Ends o6) = Ends n"
    using r9 hb g readBigInt64LE_ok [of buf o6 vb]
    by (auto simp: bindE_Inr fixed_field_def split: if_splits)
  have s7: "fixed_field buf o5 4 = Ends (o5 + 4)" using l5 by (rule fixed_field_fits)
  have s0: "fixed_field buf 0 4 = Ends 4" using l0 by (simp add: fixed_field_def)
  have p1: "declared_prefix buf o1 = Inl Wide \<or> declared_prefix buf o1 = Inr (nat inputCount, o2)"
    using r3 l2 l3 l4 l5 by (intro readVarInt_declared) simp_all
  have p2: "declared_inputs buf o2 (nat inputCount) = Ends o3
            \<or> declared_inputs buf o2 (nat inputCount) = Wide"
    using r4 l3 l4 l5 by (intro parse_inputs_declared) simp_all
  have p3: "declared_prefix buf o3 = Inl Wide \<or> declared_prefix buf o3 = Inr (nat outputCount, o4)"
    using r5 l4 l5 by (intro readVarInt_declared) simp_all
  have p4: "declared_outputs buf o4 (nat outputCount) = Ends o5
            \<or> declared_outputs buf o4 (nat outputCount) = Wide"
    using r6 l5 by (intro parse_outputs_declared) simp_all
  have e: "declared_extent buf =
     (case declared_prefix buf o1 of
        Inl e \<Rightarrow> e
      | Inr (inputCount, o3) \<Rightarrow>
          then_at (declared_inputs buf o3 inputCount) (\<lambda>o4.
          case declared_prefix buf o4 of
            Inl e \<Rightarrow> e
          | Inr (outputCount, o5) \<Rightarrow>
              then_at (declared_outputs buf o5 outputCount) (\<lambda>o6.
              then_at (fixed_field buf o6 4) (\<lambda>o7.
              then_at (if ver \<ge> 3 \<or> ver < 0 then fixed_field buf o7 4 else Ends o7) (\<lambda>o8.
              if ver < 0 \<and> le_nat (take 4 (drop 4 buf)) = 0x892f2085
              then fixed_field buf o8 8 else Ends o8)))))"
    unfolding declared_extent_def s0 then_at_Ends Let_def ver [symmetric] s1 ..
  from p1 show ?thesis
  proof
    assume "declared_prefix buf o1 = Inl Wide"
    then show ?thesis unfolding e by simp
  next
    assume q1: "declared_prefix buf o1 = Inr (nat inputCount, o2)"
    from p2 show ?thesis
    proof
      assume "declared_inputs buf o2 (nat inputCount) = Wide"
      then show ?thesis unfolding e q1 by simp
    next
      assume q2: "declared_inputs buf o2 (nat inputCount) = Ends o3"
      from p3 show ?thesis
      proof
        assume "declared_prefix buf o3 = Inl Wide"
        then show ?thesis unfolding e q1 by (simp add: q2)
      next
        assume q3: "declared_prefix buf o3 = Inr (nat outputCount, o4)"
        from p4 show ?thesis
        proof
          assume "declared_outputs buf o4 (nat outputCount) = Wide"
          then show ?thesis unfolding e q1 by (simp add: q2 q3)
        next
          assume q4: "declared_outputs buf o4 (nat outputCount) = Ends o5"
          have "declared_extent buf = Ends n"
            unfolding e q1 by (simp add: q2 q3 q4 s7 s8 s9)
          then show ?thesis by simp
        qed
      qed
    qed
  qed
qed


section \<open>The parser accepts what fits\<close>

lemma then_at_eq_Ends: "(then_at e f = Ends n) = (\<exists>m. e = Ends m \<and> f m = Ends n)"
  by (cases e) simp_all

lemma fixed_field_eq_Ends: "(fixed_field buf off w = Ends n) = (off + w \<le> length buf \<and> n = off + w)"
  by (auto simp: fixed_field_def)

lemma declared_prefix_cases:
  "(case declared_prefix buf off of Inl e \<Rightarrow> e | Inr (v, o') \<Rightarrow> g v o') = Ends n \<Longrightarrow>
     \<exists>v o'. declared_prefix buf off = Inr (v, o') \<and> g v o' = Ends n"
  by (auto simp: declared_prefix_def split: option.splits if_splits)

lemma declared_prefix_read:
  assumes "declared_prefix buf off = Inr (v, off')"
  shows "readVarInt buf off = Inr (int v, off')"
proof -
  obtain w where d: "declared_varint buf off = Some (v, w)" and s: "v < 4294967296"
    and o: "off' = off + w"
    using assms by (auto simp: declared_prefix_def split: option.splits if_splits)
  obtain first where f: "byte_at buf off = Some first"
    using d by (auto simp: declared_varint_def split: option.splits)
  let ?xs = "drop (off + 1) buf"
  consider (one) "first < 0xfd" | (three) "first = 0xfd" | (five) "first = 0xfe"
    | (nine) "\<not> first < 0xfd" "first \<noteq> 0xfd" "first \<noteq> 0xfe" by blast
  then show ?thesis
  proof cases
    case one
    then show ?thesis using d f o by (auto simp: declared_varint_def readVarInt_def)
  next
    case three
    then show ?thesis using d f o
      by (auto simp: declared_varint_def readVarInt_def readUInt16LE_def readUIntLE_def
          split: if_splits)
  next
    case five
    then show ?thesis using d f o
      by (auto simp: declared_varint_def readVarInt_def readUInt32LE_def readUIntLE_def
          split: if_splits)
  next
    case nine
    then have l: "off + 9 \<le> length buf" and v: "v = le_nat (take 8 ?xs)" and w: "w = 9"
      using d f by (auto simp: declared_varint_def split: if_splits)
    have "8 \<le> length ?xs" using l by simp
    note e = le_nat_take_8 [OF this]
    have "le_nat (take 4 (drop 4 ?xs)) = 0" using e s v by simp
    then have "v = le_nat (take 4 ?xs)" using e v by simp
    then show ?thesis using nine f l o w
      by (simp add: readVarInt_def readUInt32LE_def readUIntLE_def)
  qed
qed

lemma declared_inputs_parse:
  "declared_inputs buf off n = Ends off' \<Longrightarrow> \<exists>ins. parse_inputs buf off n = Inr (ins, off')"
proof (induction n arbitrary: off)
  case 0
  then show ?case by simp
next
  case (Suc n)
  from Suc.prems obtain scriptLen o3 where
    a: "off + 36 \<le> length buf" and
    p: "declared_prefix buf (36 + off) = Inr (scriptLen, o3)" and
    c: "o3 + scriptLen + 4 \<le> length buf" and
    r: "declared_inputs buf (o3 + scriptLen + 4) n = Ends off'"
    by (auto simp: then_at_eq_Ends fixed_field_eq_Ends dest!: declared_prefix_cases)
  obtain rest where ih: "parse_inputs buf (o3 + scriptLen + 4) n = Inr (rest, off')"
    using Suc.IH [OF r] by blast
  have v: "readVarInt buf (36 + off) = Inr (int scriptLen, o3)"
    using p by (rule declared_prefix_read)
  show ?case using a c v ih
    by (simp add: readUInt32LE_def readUIntLE_def Let_def)
qed

lemma declared_outputs_parse:
  "declared_outputs buf off n = Ends off' \<Longrightarrow> \<exists>outs. parse_outputs buf off n = Inr (outs, off')"
proof (induction n arbitrary: off)
  case 0
  then show ?case by simp
next
  case (Suc n)
  from Suc.prems obtain scriptLen o2 where
    a: "off + 8 \<le> length buf" and
    p: "declared_prefix buf (off + 8) = Inr (scriptLen, o2)" and
    r: "declared_outputs buf (o2 + scriptLen) n = Ends off'"
    by (auto simp: then_at_eq_Ends fixed_field_eq_Ends dest!: declared_prefix_cases)
  obtain rest where ih: "parse_outputs buf (o2 + scriptLen) n = Inr (rest, off')"
    using Suc.IH [OF r] by blast
  have v: "readVarInt buf (off + 8) = Inr (int scriptLen, o2)"
    using p by (rule declared_prefix_read)
  show ?case using a v ih
    by (simp add: readBigInt64LE_def readUIntLE_def Let_def)
qed

lemma declared_extent_parse:
  assumes "declared_extent buf = Ends n"
  shows "\<exists>tx. parse_from buf = Inr (tx, n)"
proof -
  define ver where "ver = signed_of 4 (le_nat (take 4 buf))"
  define vg where "vg = le_nat (take 4 (drop 4 buf))"
  from assms obtain o2 inputCount o3 o4 outputCount o5 o6 o8 where
    l0: "4 \<le> length buf" and
    s1: "(if ver < 0 then fixed_field buf 4 4 else Ends 4) = Ends o2" and
    p1: "declared_prefix buf o2 = Inr (inputCount, o3)" and
    d1: "declared_inputs buf o3 inputCount = Ends o4" and
    p2: "declared_prefix buf o4 = Inr (outputCount, o5)" and
    d2: "declared_outputs buf o5 outputCount = Ends o6" and
    l6: "o6 + 4 \<le> length buf" and
    s8: "(if ver \<ge> 3 \<or> ver < 0 then fixed_field buf (o6 + 4) 4 else Ends (o6 + 4)) = Ends o8" and
    s9: "(if ver < 0 \<and> vg = 0x892f2085 then fixed_field buf o8 8 else Ends o8) = Ends n"
    unfolding declared_extent_def Let_def ver_def [symmetric] vg_def [symmetric]
    by (auto simp: then_at_eq_Ends fixed_field_eq_Ends dest!: declared_prefix_cases
        simp del: One_nat_def)
  have r1: "readInt32LE buf 0 = Inr ver"
    using l0 by (simp add: readInt32LE_def readUIntLE_def ver_def)
  have hb: "(js_bitand ver 0x80000000 \<noteq> 0) = (ver < 0)"
    using readInt32LE_ok [OF r1] high_bit_sign [of ver] by simp
  have r2: "(if js_bitand ver 0x80000000 \<noteq> 0
          then bindE (readUInt32LE buf 4) (\<lambda>g. Inr (g, 4 + 4)) else Inr (0, 4))
        = Inr (if ver < 0 then int vg else 0, o2)"
    using s1 unfolding hb
    by (auto simp: fixed_field_eq_Ends readUInt32LE_def readUIntLE_def vg_def split: if_splits)
  have r3: "readVarInt buf o2 = Inr (int inputCount, o3)" using p1 by (rule declared_prefix_read)
  obtain ins where r4: "parse_inputs buf o3 inputCount = Inr (ins, o4)"
    using declared_inputs_parse [OF d1] by blast
  have r5: "readVarInt buf o4 = Inr (int outputCount, o5)" using p2 by (rule declared_prefix_read)
  obtain outs where r6: "parse_outputs buf o5 outputCount = Inr (outs, o6)"
    using declared_outputs_parse [OF d2] by blast
  obtain lock where r7: "readUInt32LE buf o6 = Inr lock"
    using l6 by (simp add: readUInt32LE_def readUIntLE_def)
  obtain ex where r8: "(if ver \<ge> 3 \<or> js_bitand ver 0x80000000 \<noteq> 0
          then bindE (readUInt32LE buf (o6 + 4)) (\<lambda>e. Inr (e, o6 + 4 + 4))
          else Inr (0, o6 + 4)) = Inr (ex, o8)"
    using s8 unfolding hb
    by (auto simp: fixed_field_eq_Ends readUInt32LE_def readUIntLE_def split: if_splits)
  obtain vb where r9: "(if js_bitand ver 0x80000000 \<noteq> 0
            \<and> (if ver < 0 then int vg else 0) = 0x892f2085
          then bindE (readBigInt64LE buf o8) (\<lambda>b. Inr (b, o8 + 8))
          else Inr (0, o8)) = Inr (vb, n)"
    using s9 unfolding hb
    by (auto simp: fixed_field_eq_Ends readBigInt64LE_def readUIntLE_def split: if_splits)
  show ?thesis
    unfolding parse_from_def
    by (simp only: r1 r2 r3 r4 r5 r6 r7 r8 r9 bindE_Inr_simp prod.case nat_int) blast
qed

lemmas declared_eval = declared_extent_def declared_prefix_def declared_varint_def
  fixed_field_def byte_at_def signed_of_def


section \<open>Serializing well-formed values\<close>


lemma writeVarInt_ok: "u32 v \<Longrightarrow> \<exists>bs. writeVarInt v = Inr bs"
  by (auto simp: writeVarInt_def writeUInt16LE_def writeUInt32LE_def u32_def)

lemma writeUInt32LE_ok: "u32 v \<Longrightarrow> \<exists>bs. writeUInt32LE v = Inr bs"
  by (simp add: writeUInt32LE_def u32_def)

lemma writeBigInt64LE_ok: "i64 v \<Longrightarrow> \<exists>bs. writeBigInt64LE v = Inr bs"
  by (simp add: writeBigInt64LE_def i64_def)

lemma rebuild_input_ok: "wf_input i \<Longrightarrow> \<exists>bs. rebuild_input i = Inr bs"
proof -
  assume w: "wf_input i"
  obtain a where a: "writeUInt32LE (vout i) = Inr a"
    using w writeUInt32LE_ok [of "vout i"] by (auto simp: wf_input_def)
  obtain b where b: "writeVarInt (int (length (scriptSig i))) = Inr b"
    using w writeVarInt_ok [of "int (length (scriptSig i))"] by (auto simp: wf_input_def)
  obtain c where c: "writeUInt32LE (sequence i) = Inr c"
    using w writeUInt32LE_ok [of "sequence i"] by (auto simp: wf_input_def)
  show ?thesis by (simp add: rebuild_input_def a b c)
qed

lemma rebuild_inputs_ok: "\<forall>i \<in> set ins. wf_input i \<Longrightarrow> \<exists>bs. rebuild_inputs ins = Inr bs"
proof (induction ins)
  case Nil
  show ?case by simp
next
  case (Cons i ins)
  obtain b where b: "rebuild_input i = Inr b" using Cons.prems rebuild_input_ok [of i] by auto
  obtain bs where bs: "rebuild_inputs ins = Inr bs" using Cons by auto
  show ?case by (simp add: b bs)
qed

lemma rebuild_output_ok: "wf_output out \<Longrightarrow> \<exists>bs. rebuild_output out = Inr bs"
proof -
  assume w: "wf_output out"
  obtain a where a: "writeBigInt64LE (out_value out) = Inr a"
    using w writeBigInt64LE_ok [of "out_value out"] by (auto simp: wf_output_def)
  obtain b where b: "writeVarInt (int (length (scriptPubKey out))) = Inr b"
    using w writeVarInt_ok [of "int (length (scriptPubKey out))"] by (auto simp: wf_output_def)
  show ?thesis by (simp add: rebuild_output_def a b)
qed

lemma rebuild_outputs_ok:
  "\<forall>out \<in> set outs. wf_output out \<Longrightarrow> \<exists>bs. rebuild_outputs outs = Inr bs"
proof (induction outs)
  case Nil
  show ?case by simp
next
  case (Cons out outs)
  obtain b where b: "rebuild_output out = Inr b" using Cons.prems rebuild_output_ok [of out] by auto
  obtain bs where bs: "rebuild_outputs outs = Inr bs" using Cons by auto
  show ?case by (simp add: b bs)
qed

lemma rebuild_bytes_ok:
  assumes "wf_tx tx"
  shows "\<exists>bs. rebuild_bytes tx = Inr bs"
proof -
  have w: "- (2 ^ 31) \<le> version tx" "version tx < 2 ^ 31" "u32 (versionGroupId tx)"
    "u32 (int (length (inputs tx)))" "\<forall>i \<in> set (inputs tx). wf_input i"
    "u32 (int (length (outputs tx)))" "\<forall>out \<in> set (outputs tx). wf_output out"
    "u32 (lockTime tx)" "u32 (expiryHeight tx)" "i64 (valueBalance tx)"
    using assms by (simp_all add: wf_tx_def)
  obtain a where a: "writeInt32LE (version tx) = Inr a" using w(1,2) by (simp add: writeInt32LE_def)
  obtain b where b: "writeUInt32LE (versionGroupId tx) = Inr b"
    using writeUInt32LE_ok [OF w(3)] by blast
  obtain c where c: "writeVarInt (int (length (inputs tx))) = Inr c"
    using writeVarInt_ok [OF w(4)] by blast
  obtain d where d: "rebuild_inputs (inputs tx) = Inr d" using rebuild_inputs_ok [OF w(5)] by blast
  obtain e where e: "writeVarInt (int (length (outputs tx))) = Inr e"
    using writeVarInt_ok [OF w(6)] by blast
  obtain f where f: "rebuild_outputs (outputs tx) = Inr f"
    using rebuild_outputs_ok [OF w(7)] by blast
  obtain g where g: "writeUInt32LE (lockTime tx) = Inr g" using writeUInt32LE_ok [OF w(8)] by blast
  obtain h where h: "writeUInt32LE (expiryHeight tx) = Inr h"
    using writeUInt32LE_ok [OF w(9)] by blast
  obtain i where i: "writeBigInt64LE (valueBalance tx) = Inr i"
    using writeBigInt64LE_ok [OF w(10)] by blast
  show ?thesis by (simp add: rebuild_bytes_def a b c d e f g h i writeVarInt_0)
qed

lemma rebuild_absent_cleared: "rebuild_bytes (absent_cleared tx) = rebuild_bytes tx"
  by (simp add: rebuild_bytes_def absent_cleared_def)

lemma normal_absent_cleared: "normal_tx (absent_cleared tx)"
  by (simp add: normal_tx_def absent_cleared_def)

lemma rebuild_raw_ignored: "rebuild_bytes (tx\<lparr>raw := r\<rparr>) = rebuild_bytes tx"
  by (simp add: rebuild_bytes_def)

lemma wf_txids: "wf_tx tx \<Longrightarrow> \<forall>i \<in> set (inputs tx). length (txid i) = 32"
  by (simp add: wf_tx_def wf_input_def)

lemma roundtrip_bytes:
  assumes "wf_tx tx"
  shows "\<exists>bs tx' n. rebuild_bytes tx = Inr bs \<and> parse_from bs = Inr (tx', n)
           \<and> rebuild_bytes tx' = Inr bs \<and> tx' = (absent_cleared tx)\<lparr>raw := bs\<rparr>"
proof -
  obtain bs where bs: "rebuild_bytes tx = Inr bs" using rebuild_bytes_ok [OF assms] by blast
  let ?t = "absent_cleared tx"
  have r: "rebuild_bytes ?t = Inr bs" using bs by (simp add: rebuild_absent_cleared)
  have i: "\<forall>i \<in> set (inputs ?t). length (txid i) = 32"
    using wf_txids [OF assms] by (simp add: absent_cleared_def)
  have "parse_from bs = Inr (?t\<lparr>raw := bs\<rparr>,
           length bs - (if js_bitand (version ?t) 0x80000000 \<noteq> 0
                           \<and> versionGroupId ?t = 0x892f2085 then 3 else 0))"
    using r i normal_absent_cleared by (rule parse_rebuild_bytes)
  moreover have "rebuild_bytes (?t\<lparr>raw := bs\<rparr>) = Inr bs" using r by (simp add: rebuild_raw_ignored)
  ultimately show ?thesis using bs by blast
qed


section \<open>Evaluation on concrete inputs\<close>

lemmas parse_eval = parse_from_def readInt32LE_def readUInt32LE_def readUInt16LE_def
  readBigInt64LE_def readUIntLE_def readVarInt_def byte_at_def slice_buf_def signed_of_def
  js_bitand_def Let_def

lemmas rebuild_eval = rebuildTransaction_def rebuild_bytes_def rebuild_input_def
  rebuild_output_def writeInt32LE_def writeUInt32LE_def writeUInt16LE_def writeBigInt64LE_def
  writeVarInt_def le_bytes_2 le_bytes_4 le_bytes_8 js_bitand_def toString_hex_def hex_digit_def

lemmas hex_eval = parseTransaction_def hex_value_def

section \<open>The layout of a serialized transaction\<close>


lemma rebuild_bytes_layout:
  assumes "rebuild_bytes tx = Inr bs"
  shows "\<exists>inputCount ins outputCount outs.
      writeVarInt (int (length (inputs tx))) = Inr inputCount
      \<and> rebuild_inputs (inputs tx) = Inr ins
      \<and> writeVarInt (int (length (outputs tx))) = Inr outputCount
      \<and> rebuild_outputs (outputs tx) = Inr outs
      \<and> bs = le_bytes 4 (nat (version tx mod 2 ^ 32))
          @ (if version tx < 0 then le_bytes 4 (nat (versionGroupId tx)) else [])
          @ inputCount @ ins @ outputCount @ outs
          @ le_bytes 4 (nat (lockTime tx))
          @ (if version tx \<ge> 3 \<or> version tx < 0 then le_bytes 4 (nat (expiryHeight tx)) else [])
          @ (if version tx < 0 \<and> versionGroupId tx = 0x892f2085
             then le_bytes 8 (nat (valueBalance tx mod 2 ^ 64)) @ [0, 0, 0] else [])"
proof -
  let ?hb = "js_bitand (version tx) 0x80000000 \<noteq> 0"
  obtain versionBuf vgBuf inputCount ins outputCount outs lockTimeBuf expiryBuf sapling where
    w1: "writeInt32LE (version tx) = Inr versionBuf" and
    w2: "(if ?hb then writeUInt32LE (versionGroupId tx) else Inr []) = Inr vgBuf" and
    w3: "writeVarInt (int (length (inputs tx))) = Inr inputCount" and
    w4: "rebuild_inputs (inputs tx) = Inr ins" and
    w5: "writeVarInt (int (length (outputs tx))) = Inr outputCount" and
    w6: "rebuild_outputs (outputs tx) = Inr outs" and
    w7: "writeUInt32LE (lockTime tx) = Inr lockTimeBuf" and
    w8: "(if version tx \<ge> 3 \<or> ?hb then writeUInt32LE (expiryHeight tx) else Inr [])
           = Inr expiryBuf" and
    w9: "(if ?hb \<and> versionGroupId tx = 0x892f2085
          then bindE (writeBigInt64LE (valueBalance tx)) (\<lambda>valueBuf.
               bindE (writeVarInt 0) (\<lambda>s1.
               bindE (writeVarInt 0) (\<lambda>s2.
               bindE (writeVarInt 0) (\<lambda>s3. Inr (valueBuf @ s1 @ s2 @ s3)))))
          else Inr []) = Inr sapling" and
    bs: "bs = versionBuf @ vgBuf @ inputCount @ ins @ outputCount @ outs @ lockTimeBuf
              @ expiryBuf @ sapling"
    using assms unfolding rebuild_bytes_def bindE_Inr by blast
  have r: "- (2 ^ 31) \<le> version tx" "version tx < 2 ^ 31"
    and v: "versionBuf = le_bytes 4 (nat (version tx mod 2 ^ 32))"
    using w1 by (auto simp: writeInt32LE_def split: if_splits)
  have hb: "?hb = (version tx < 0)" using r by (rule high_bit_sign)
  have g: "vgBuf = (if version tx < 0 then le_bytes 4 (nat (versionGroupId tx)) else [])"
    using w2 hb by (auto simp: writeUInt32LE_def split: if_splits)
  have l: "lockTimeBuf = le_bytes 4 (nat (lockTime tx))"
    using w7 by (auto simp: writeUInt32LE_def split: if_splits)
  have e: "expiryBuf = (if version tx \<ge> 3 \<or> version tx < 0
                        then le_bytes 4 (nat (expiryHeight tx)) else [])"
    using w8 hb by (auto simp: writeUInt32LE_def split: if_splits)
  have s: "sapling = (if version tx < 0 \<and> versionGroupId tx = 0x892f2085
             then le_bytes 8 (nat (valueBalance tx mod 2 ^ 64)) @ [0, 0, 0] else [])"
    using w9 hb by (auto simp: writeBigInt64LE_def writeVarInt_0 bindE_Inr split: if_splits)
  show ?thesis using w3 w4 w5 w6 bs v g l e s by simp
qed


text \<open>The serializer on two values, one with every optional field and one with none.\<close>

lemma ex_sapling_rebuild: "rebuildTransaction ex_sapling = Inr ex_sapling_hex"
  by (simp add: rebuild_eval ex_sapling_def ex_txid_def ex_sapling_hex_def)

lemma ex_mixed_rebuild: "rebuildTransaction ex_mixed = Inr ''02000000000000000000''"
  by (simp add: rebuild_eval ex_mixed_def)

lemma ex_sapling_wf: "wf_tx ex_sapling"
  by (simp add: wf_tx_def wf_input_def wf_output_def u32_def i64_def ex_sapling_def ex_txid_def)


section \<open>DER integers\<close>


lemma der_strip_minimal:
  "r \<noteq> [] \<Longrightarrow> \<not> high_bit (Some (hd r)) \<Longrightarrow> der_strip r = minimal_der_int r"
proof (induction r rule: der_strip.induct)
  case (1 a b rest)
  show ?case
  proof (cases "a = 0")
    case True
    show ?thesis
    proof (cases "high_bit (Some b)")
      case True
      then have "b \<noteq> 0" by (auto simp: high_bit_def)
      then show ?thesis using \<open>a = 0\<close> True by (simp add: minimal_der_int_def high_bit_def)
    next
      case False
      then have "der_strip (b # rest) = minimal_der_int (b # rest)"
        using "1.IH" \<open>a = 0\<close> by simp
      then show ?thesis using \<open>a = 0\<close> False by (simp add: minimal_der_int_def)
    qed
  next
    case False
    then show ?thesis using "1.prems" by (simp add: minimal_der_int_def high_bit_def)
  qed
qed (simp_all add: minimal_der_int_def high_bit_def)

lemma der_pad_strip:
  assumes "r \<noteq> []"
  shows "der_strip (der_pad r) = minimal_der_int r"
proof (cases "high_bit (Some (hd r))")
  case True
  obtain a rest where r: "r = a # rest" using assms by (cases r) auto
  have a: "a AND 0x80 \<noteq> 0" using True r by (simp add: high_bit_def)
  then have "a \<noteq> 0" by auto
  then show ?thesis using a r by (simp add: der_pad_def byte_at_def high_bit_def minimal_der_int_def)
next
  case False
  then have "der_pad r = r" using assms by (cases r) (auto simp: der_pad_def byte_at_def)
  then show ?thesis using der_strip_minimal [OF assms False] by simp
qed

lemma length_minimal_der_int: "1 \<le> length (minimal_der_int r) \<and> length (minimal_der_int r) \<le> length r + 1"
proof -
  let ?n = "dropWhile (\<lambda>b. b = 0) r"
  have "length ?n \<le> length r" by (rule length_dropWhile_le)
  moreover have "?n \<noteq> [] \<Longrightarrow> 1 \<le> length ?n" by (cases ?n) auto
  ultimately show ?thesis unfolding minimal_der_int_def Let_def by (cases "?n = []") auto
qed


text \<open>
  The encoding written from the specification is canonical: its top bit is clear,
  its significant bytes are those of the input, and the code's loop finds no
  leading zero left to remove.
\<close>


lemma minimal_der_int_canonical:
  "high_bit (byte_at (minimal_der_int r) 0) = False
   \<and> dropWhile (\<lambda>b. b = 0) (minimal_der_int r) = dropWhile (\<lambda>b. b = 0) r
   \<and> der_strip (minimal_der_int r) = minimal_der_int r"
proof -
  let ?n = "dropWhile (\<lambda>b. b = 0) r"
  show ?thesis
  proof (cases "?n = []")
    case True
    then have m: "minimal_der_int r = [0]" by (simp add: minimal_der_int_def)
    have "dropWhile (\<lambda>b. b = 0) [0 :: byte] = []" by simp
    then have "dropWhile (\<lambda>b. b = 0) [0 :: byte] = ?n" by (simp only: True)
    then show ?thesis unfolding m by (simp add: high_bit_def byte_at_def)
  next
    case False
    then obtain a rest where n: "?n = a # rest" by (cases ?n) auto
    have a: "a \<noteq> 0" using hd_dropWhile [of "\<lambda>b. b = 0" r] False n by auto
    show ?thesis
    proof (cases "a AND 0x80 \<noteq> 0")
      case True
      then have m: "minimal_der_int r = 0 # a # rest" using n by (simp add: minimal_der_int_def)
      show ?thesis using True a n by (simp add: m high_bit_def byte_at_def)
    next
      case False
      then have m: "minimal_der_int r = a # rest" using n by (simp add: minimal_der_int_def)
      have "der_strip (a # rest) = a # rest" using a by (cases rest) simp_all
      then show ?thesis using False a n by (simp add: m high_bit_def byte_at_def)
    qed
  qed
qed


section \<open>The sighash engine without its hash primitive\<close>

text \<open>The bytes of the fixed-width writes.\<close>

lemma writeInt32LE_bytes:
  "- (2 ^ 31) \<le> v \<Longrightarrow> v < 2 ^ 31 \<Longrightarrow> writeInt32LE v = Inr (le_bytes 4 (nat (v mod 2 ^ 32)))"
  by (simp add: writeInt32LE_def)

lemma writeUInt32LE_bytes: "u32 v \<Longrightarrow> writeUInt32LE v = Inr (le_bytes 4 (nat v))"
  by (simp add: writeUInt32LE_def u32_def)

lemma writeBigInt64LE_bytes: "i64 v \<Longrightarrow> writeBigInt64LE v = Inr (le_bytes 8 (nat (v mod 2 ^ 64)))"
  by (simp add: writeBigInt64LE_def i64_def)



lemma blake2b256_fallback:
  "blake2b L data personalization = None \<Longrightarrow>
     blake2b256 L data personalization = (sha256 L data, [fallback_warning])"
  by (simp add: blake2b256_def)

lemma prevoutsData_ok: "\<forall>i \<in> set ins. wf_input i \<Longrightarrow> \<exists>bs. prevoutsData ins = Inr bs"
proof (induction ins)
  case Nil
  show ?case by simp
next
  case (Cons i ins)
  obtain a where a: "writeUInt32LE (vout i) = Inr a"
    using Cons.prems writeUInt32LE_ok [of "vout i"] by (auto simp: wf_input_def)
  obtain bs where bs: "prevoutsData ins = Inr bs" using Cons by auto
  show ?case by (simp add: a bs)
qed

lemma sequenceData_ok: "\<forall>i \<in> set ins. wf_input i \<Longrightarrow> \<exists>bs. sequenceData ins = Inr bs"
proof (induction ins)
  case Nil
  show ?case by simp
next
  case (Cons i ins)
  obtain a where a: "writeUInt32LE (sequence i) = Inr a"
    using Cons.prems writeUInt32LE_ok [of "sequence i"] by (auto simp: wf_input_def)
  obtain bs where bs: "sequenceData ins = Inr bs" using Cons by auto
  show ?case by (simp add: a bs)
qed

lemma outputsData_ok: "\<forall>out \<in> set outs. wf_output out \<Longrightarrow> \<exists>bs. outputsData outs = Inr bs"
proof (induction outs)
  case Nil
  show ?case by simp
next
  case (Cons out outs)
  obtain a where a: "writeBigInt64LE (out_value out) = Inr a"
    using Cons.prems writeBigInt64LE_ok [of "out_value out"] by (auto simp: wf_output_def)
  obtain b where b: "writeVarInt (int (length (scriptPubKey out))) = Inr b"
    using Cons.prems writeVarInt_ok [of "int (length (scriptPubKey out))"]
    by (auto simp: wf_output_def)
  obtain bs where bs: "outputsData outs = Inr bs" using Cons by auto
  show ?case by (simp add: a b bs)
qed


lemmas sighash_eval = createSighashV4_def blake2b256_def Buffer_from_string_def js_string_def
  utf8_unit_def sighash_personalization_def writeInt32LE_def writeUInt32LE_def
  writeBigInt64LE_def writeVarInt_def le_bytes_2 le_bytes_4 le_bytes_8

section \<open>What signInput does to the transaction\<close>


lemma normal_tx_inputs: "normal_tx (tx\<lparr>inputs := ins\<rparr>) = normal_tx tx"
  by (simp add: normal_tx_def)

lemma set_update_txid:
  assumes "\<forall>x \<in> set ins. length (txid x) = 32" "i < length ins"
  shows "\<forall>x \<in> set (ins[i := (ins ! i)\<lparr>scriptSig := sc\<rparr>]). length (txid x) = 32"
proof
  fix x assume "x \<in> set (ins[i := (ins ! i)\<lparr>scriptSig := sc\<rparr>])"
  then have "x = (ins ! i)\<lparr>scriptSig := sc\<rparr> \<or> x \<in> set ins"
    using set_update_subset_insert [of ins i] by auto
  then show "length (txid x) = 32" using assms by auto
qed


lemma parse_of_rebuilt:
  assumes p: "parse_from buf = Inr (tx, n)" and i: "i < length (inputs tx)"
    and r: "rebuildTransaction (tx\<lparr>inputs := (inputs tx)[i := (inputs tx ! i)\<lparr>scriptSig := sc\<rparr>]\<rparr>)
              = Inr y"
  shows "parseTransaction y
           = Inr (tx\<lparr>inputs := (inputs tx)[i := (inputs tx ! i)\<lparr>scriptSig := sc\<rparr>],
                    raw := Buffer_from_hex y\<rparr>)"
proof -
  define t where "t = tx\<lparr>inputs := (inputs tx)[i := (inputs tx ! i)\<lparr>scriptSig := sc\<rparr>]\<rparr>"
  obtain bs where b: "rebuild_bytes t = Inr bs" and y: "y = toString_hex bs"
    using r unfolding t_def [symmetric] rebuildTransaction_def bindE_Inr by blast
  have wf: "wf_tx tx" and nm: "normal_tx tx" using parse_from_ok [OF p] by simp_all
  have "\<forall>x \<in> set ((inputs tx)[i := (inputs tx ! i)\<lparr>scriptSig := sc\<rparr>]). length (txid x) = 32"
    using wf_txids [OF wf] i by (rule set_update_txid)
  then have ids: "\<forall>x \<in> set (inputs t). length (txid x) = 32" by (simp add: t_def)
  have nt: "normal_tx t" using nm by (simp add: t_def normal_tx_inputs)
  obtain m where "parse_from bs = Inr (t\<lparr>raw := bs\<rparr>, m)"
    using parse_rebuild_bytes [OF b ids nt] by blast
  then have "parseTransaction y = Inr (t\<lparr>raw := bs\<rparr>)"
    by (simp add: parseTransaction_def y)
  moreover have "t\<lparr>raw := bs\<rparr>
      = tx\<lparr>inputs := (inputs tx)[i := (inputs tx ! i)\<lparr>scriptSig := sc\<rparr>],
            raw := Buffer_from_hex y\<rparr>"
    by (simp add: t_def y)
  ultimately show ?thesis by simp
qed


lemma signInput_inversion:
  assumes s: "signInput L wif txHex i prevScriptPubKey amount = Inr (y, log)"
    and p: "parseTransaction txHex = Inr tx"
  shows "i < length (inputs tx)
         \<and> (\<exists>sc. rebuildTransaction
                    (tx\<lparr>inputs := (inputs tx)[i := (inputs tx ! i)\<lparr>scriptSig := sc\<rparr>]\<rparr>) = Inr y)"
proof -
  obtain privateKey publicKey where
    a: "bindE (createSighashV4 L tx i (Buffer_from_hex prevScriptPubKey) amount SIGHASH_ALL)
          (\<lambda>(sighash, log).
             bindE (sign L sighash privateKey) (\<lambda>signature.
             case signature of
               None \<Rightarrow> Inl FailedSignature
             | Some sg \<Rightarrow>
                 let scriptSig = unlock_script sg publicKey
                 in if i < length (inputs tx)
                    then bindE (rebuildTransaction
                                  (tx\<lparr>inputs := (inputs tx)
                                         [i := (inputs tx ! i)\<lparr>scriptSig := scriptSig\<rparr>]\<rparr>))
                           (\<lambda>hex. Inr (hex, log))
                    else Inl TypeError)) = Inr (y, log)"
    using s unfolding signInput_def bindE_Inr p Let_def by blast
  obtain sighash lg where
    b: "bindE (sign L sighash privateKey) (\<lambda>signature.
             case signature of
               None \<Rightarrow> Inl FailedSignature
             | Some sg \<Rightarrow>
                 let scriptSig = unlock_script sg publicKey
                 in if i < length (inputs tx)
                    then bindE (rebuildTransaction
                                  (tx\<lparr>inputs := (inputs tx)
                                         [i := (inputs tx ! i)\<lparr>scriptSig := scriptSig\<rparr>]\<rparr>))
                           (\<lambda>hex. Inr (hex, lg))
                    else Inl TypeError) = Inr (y, log)"
    using a by (cases "createSighashV4 L tx i (Buffer_from_hex prevScriptPubKey) amount SIGHASH_ALL")
      (auto simp only: bindE_Inl_simp bindE_Inr_simp prod.case split: prod.splits)
  obtain sg where
    c: "(if i < length (inputs tx)
         then bindE (rebuildTransaction
                       (tx\<lparr>inputs := (inputs tx)
                              [i := (inputs tx ! i)\<lparr>scriptSig := unlock_script sg publicKey\<rparr>]\<rparr>))
                (\<lambda>hex. Inr (hex, lg))
         else Inl TypeError) = Inr (y, log)"
    using b unfolding bindE_Inr Let_def by (auto split: option.splits)
  have i: "i < length (inputs tx)" using c by (cases "i < length (inputs tx)") simp_all
  have "rebuildTransaction
          (tx\<lparr>inputs := (inputs tx)[i := (inputs tx ! i)\<lparr>scriptSig := unlock_script sg publicKey\<rparr>]\<rparr>)
        = Inr y"
    using c i by (auto simp: bindE_Inr)
  with i show ?thesis by blast
qed



section \<open>The signing example\<close>


lemma ex_parse: "parseTransaction ex_hex = Inr ex_tx"
  by (simp add: hex_eval parse_eval ex_hex_def ex_tx_def ex_raw_def ex_txid_def)

lemma ex_sighash:
  "createSighashV4 stub_libs ex_tx 0 [0x76, 0xa9] 1000 SIGHASH_ALL = Inr (replicate 32 0x0b, [])"
  by (simp add: sighash_eval SIGHASH_ALL_def stub_libs_def ex_tx_def ex_txid_def)

lemma ex_unlock:
  "unlock_script (ex_r @ ex_s) ([0x02] @ ex_txid)
     = [70, 48, 67, 2, 33, 0] @ ex_r @ [2, 30] @ drop 2 ex_s @ [1, 33, 2] @ ex_txid"
  by (simp add: unlock_script_def createDerSignature_def der_pad_def high_bit_def byte_at_def
      slice_buf_def Let_def SIGHASH_ALL_def ex_r_def ex_s_def ex_txid_def)

lemma ex_rebuild:
  "rebuildTransaction (ex_tx\<lparr>inputs := (inputs ex_tx)
      [0 := (inputs ex_tx ! 0)\<lparr>scriptSig :=
         [70, 48, 67, 2, 33, 0] @ ex_r @ [2, 30] @ drop 2 ex_s @ [1, 33, 2] @ ex_txid\<rparr>]\<rparr>)
     = Inr ex_signed_hex"
  by (simp add: rebuild_eval ex_tx_def ex_r_def ex_s_def ex_txid_def ex_signed_hex_def)

lemma ex_sign: "signInput stub_libs ''wif'' ex_hex 0 ''76a9'' 1000 = Inr (ex_signed_hex, [])"
proof -
  have k: "wifToPrivateKey stub_libs ''wif'' = Inr ex_txid"
    by (simp add: wifToPrivateKey_def stub_libs_def slice_buf_def ex_txid_def)
  have c: "isCompressedWif stub_libs ''wif'' = Inr True"
    by (simp add: isCompressedWif_def stub_libs_def byte_at_def ex_txid_def)
  have pk: "privateKeyToPublicKey stub_libs ex_txid True = Inr ([0x02] @ ex_txid)"
    by (simp add: privateKeyToPublicKey_def stub_libs_def)
  have sc: "Buffer_from_hex ''76a9'' = [0x76, 0xa9]" by (simp add: hex_value_def)
  have sg: "sign stub_libs (replicate 32 0x0b) ex_txid = Inr (Some (ex_r @ ex_s))"
    by (simp add: stub_libs_def)
  have i: "0 < length (inputs ex_tx)" by (simp add: ex_tx_def)
  show ?thesis
    unfolding signInput_def
    by (simp only: k c pk ex_parse sc ex_sighash sg ex_unlock ex_rebuild i bindE_Inr_simp
        Let_def prod.case option.case if_True)
qed


section \<open>Base58Check decodes what it encodes\<close>

lemma digits_0 [simp]: "digits b 0 = []"
  by (simp add: digits.simps [of b 0])

lemma digits_step: "n \<noteq> 0 \<Longrightarrow> 2 \<le> b \<Longrightarrow> digits b n = n mod b # digits b (n div b)"
  by (simp add: digits.simps [of b n])

lemma from_digits_digits: "2 \<le> b \<Longrightarrow> from_digits b (digits b n) = n"
proof (induction b n rule: digits.induct)
  case (1 b n)
  show ?case
  proof (cases "n = 0")
    case True
    then show ?thesis by (simp add: digits.simps [of b n])
  next
    case False
    then have "from_digits b (digits b (n div b)) = n div b" using 1 by simp
    then show ?thesis using False "1.prems" by (simp add: digits.simps [of b n])
  qed
qed

lemma digits_less: "2 \<le> b \<Longrightarrow> d \<in> set (digits b n) \<Longrightarrow> d < b"
proof (induction b n rule: digits.induct)
  case (1 b n)
  show ?case
  proof (cases "n = 0")
    case True
    then show ?thesis using "1.prems" by (simp add: digits.simps [of b n])
  next
    case False
    then have "d = n mod b \<or> d \<in> set (digits b (n div b))"
      using "1.prems" by (simp add: digits.simps [of b n] split: if_splits)
    then show ?thesis using 1 False by auto
  qed
qed

lemma last_digits: "2 \<le> b \<Longrightarrow> digits b n \<noteq> [] \<Longrightarrow> last (digits b n) \<noteq> 0"
proof (induction b n rule: digits.induct)
  case (1 b n)
  have n: "n \<noteq> 0" using "1.prems" by (auto simp: digits.simps [of b n] split: if_splits)
  show ?case
  proof (cases "digits b (n div b) = []")
    case True
    then have "n div b = 0"
      using "1.prems"(1) by (auto simp: digits.simps [of b "n div b"] split: if_splits)
    then have "n < b" using "1.prems"(1) by (simp add: div_eq_0_iff)
    then have "n mod b \<noteq> 0" using n by simp
    moreover have "digits b n = [n mod b]"
      using n "1.prems"(1) True by (simp add: digits.simps [of b n])
    ultimately show ?thesis by simp
  next
    case False
    then have "last (digits b (n div b)) \<noteq> 0" using 1 n by simp
    moreover have "digits b n = n mod b # digits b (n div b)"
      using n "1.prems"(1) by (simp add: digits.simps [of b n])
    ultimately show ?thesis using False by simp
  qed
qed

lemma from_digits_zero:
  "0 < b \<Longrightarrow> (from_digits b ds = 0) = (strip_high ds = [])"
  by (induction ds) auto

lemma digits_from_digits:
  "2 \<le> b \<Longrightarrow> \<forall>d \<in> set ds. d < b \<Longrightarrow> digits b (from_digits b ds) = strip_high ds"
proof (induction ds)
  case Nil
  show ?case by (simp add: digits.simps [of b 0])
next
  case (Cons d ds)
  have ih: "digits b (from_digits b ds) = strip_high ds" using Cons by simp
  have d: "d < b" using Cons.prems by simp
  let ?v = "from_digits b ds"
  show ?case
  proof (cases "d + b * ?v = 0")
    case True
    then have "d = 0" "?v = 0" using Cons.prems(1) by auto
    then show ?thesis
      using from_digits_zero [of b ds] Cons.prems(1) by (simp add: digits.simps [of b 0])
  next
    case False
    have m: "(d + b * ?v) mod b = d" using d by simp
    have q: "(d + b * ?v) div b = ?v" using d by simp
    have "\<not> (strip_high ds = [] \<and> d = 0)"
      using False from_digits_zero [of b ds] Cons.prems(1) by auto
    then show ?thesis
      using False m q ih Cons.prems(1) by (simp add: digits.simps [of b "d + b * ?v"])
  qed
qed

lemma strip_high_snoc: "strip_high (ys @ [x]) = (if x = 0 then strip_high ys else ys @ [x])"
proof (induction ys)
  case Nil
  show ?case by simp
next
  case (Cons y ys)
  show ?case
  proof (cases "x = 0")
    case True
    then show ?thesis using Cons by simp
  next
    case False
    then have "strip_high (ys @ [x]) = ys @ [x]" using Cons by simp
    then show ?thesis using False by simp
  qed
qed

lemma rev_strip_high: "rev (strip_high (rev xs)) = dropWhile (\<lambda>d. d = 0) xs"
  by (induction xs) (simp_all add: strip_high_snoc)

lemma from_digits_zeros: "from_digits b (xs @ replicate z 0) = from_digits b xs"
proof (induction xs)
  case Nil
  show ?case by (induction z) simp_all
next
  case (Cons x xs)
  then show ?case by simp
qed

lemma base58_index_all:
  "\<forall>d \<in> set [0..<58]. index_of (base58_chars ! d) base58_chars = Some d"
  by code_simp

lemma base58_index: "d < 58 \<Longrightarrow> index_of (base58_chars ! d) base58_chars = Some d"
  using base58_index_all by simp

lemma base58_index_one: "index_of (CHR ''1'') base58_chars = Some 0"
  by (simp add: base58_chars_def)

lemma those_map_Some: "those (map Some xs) = Some xs"
  by (induction xs) simp_all

lemma takeWhile_zeros:
  "ys = [] \<or> hd ys \<noteq> (0::nat) \<Longrightarrow> takeWhile (\<lambda>d. d = 0) (replicate z 0 @ ys) = replicate z 0"
  by (induction z) (auto simp: takeWhile_eq_Nil_iff)

lemma leading_zeros: "replicate (length (takeWhile (\<lambda>b. b = 0) bs)) 0 @ dropWhile (\<lambda>b. b = 0) bs
                        = (bs :: bytes)"
proof -
  have "\<forall>y \<in> set (takeWhile (\<lambda>b. b = 0) bs). y = 0" by (auto dest: set_takeWhileD)
  then have "replicate (length (takeWhile (\<lambda>b. b = 0) bs)) 0 = takeWhile (\<lambda>b. b = 0) bs"
    by (rule replicate_length_same)
  then show ?thesis by simp
qed

lemma bytes_of_digits:
  "map of_nat (rev (digits 256 (from_digits 256 (rev (map unat bs)))))
     = dropWhile (\<lambda>b. b = 0) (bs :: bytes)"
proof -
  have "\<forall>d \<in> set (rev (map unat bs)). d < 256" using byte_less_256 by auto
  then have "digits 256 (from_digits 256 (rev (map unat bs))) = strip_high (rev (map unat bs))"
    by (intro digits_from_digits) simp_all
  then have "rev (digits 256 (from_digits 256 (rev (map unat bs))))
               = dropWhile (\<lambda>d. d = 0) (map unat bs)"
    by (simp add: rev_strip_high)
  also have "\<dots> = map unat (dropWhile (\<lambda>b. b = 0) bs)"
    by (simp add: dropWhile_map comp_def unsigned_eq_0_iff)
  finally show ?thesis by (simp add: comp_def)
qed

lemma base58_roundtrip: "base58_decode (base58_encode bs) = Some bs"
proof -
  define z where "z = length (takeWhile (\<lambda>b. b = 0) bs)"
  define n where "n = from_digits 256 (rev (map unat bs))"
  define body where "body = rev (digits 58 n)"
  have enc: "base58_encode bs = replicate z (CHR ''1'') @ map (\<lambda>d. base58_chars ! d) body"
    by (simp add: base58_encode_def z_def n_def body_def Let_def)
  have lt: "\<forall>d \<in> set body. d < 58" using digits_less [of 58 _ n] by (auto simp: body_def)
  have "map (\<lambda>c. index_of c base58_chars) (base58_encode bs) = map Some (replicate z 0 @ body)"
    using lt by (simp add: enc base58_index_one base58_index map_replicate_const [symmetric]
        del: map_replicate_const)
  then have th: "those (map (\<lambda>c. index_of c base58_chars) (base58_encode bs))
                   = Some (replicate z 0 @ body)"
    by (simp only: those_map_Some)
  have hd: "body = [] \<or> hd body \<noteq> 0"
  proof (cases "digits 58 n = []")
    case True
    then show ?thesis by (simp add: body_def)
  next
    case False
    then have "last (digits 58 n) \<noteq> 0" by (intro last_digits) simp_all
    then show ?thesis by (simp add: body_def hd_rev)
  qed
  have zz: "length (takeWhile (\<lambda>d. d = 0) (replicate z 0 @ body)) = z"
    using takeWhile_zeros [OF hd, of z] by simp
  have nn: "from_digits 58 (rev body @ replicate z 0) = n"
    by (simp add: body_def from_digits_zeros from_digits_digits)
  have "base58_decode (base58_encode bs)
          = Some (replicate z 0 @ map of_nat (rev (digits 256 n)))"
    unfolding base58_decode_def th by (simp add: zz nn Let_def)
  also have "replicate z 0 @ map of_nat (rev (digits 256 n)) = bs"
    unfolding n_def bytes_of_digits z_def by (rule leading_zeros)
  finally show ?thesis .
qed

lemma base58check_roundtrip:
  assumes "\<forall>d. 4 \<le> length (H d)"
  shows "base58check_decode H (base58check_encode H payload) = Inr payload"
proof -
  have "4 \<le> length (H (H payload))" using assms by blast
  then have "length (take 4 (H (H payload))) = 4" by simp
  then show ?thesis
    by (simp add: base58check_decode_def base58check_encode_def base58_roundtrip)
qed


lemma base58_libs_inverse:
  "\<forall>payload. bs58check_decode base58_libs (bs58check_encode base58_libs payload) = Inr payload"
proof -
  have "\<forall>d. 4 \<le> length (sha256 stub_libs d)" by (simp add: stub_libs_def)
  then show ?thesis by (simp add: base58_libs_def base58check_roundtrip)
qed

section \<open>The claims\<close>

subsection \<open>VarInt codec\<close>

text \<open>
  Claim C6. For every buffer whose byte at the given offset is \<open>0xff\<close>, readVarInt
  should return the full 64-bit little-endian value of the following 8 bytes,
  with nextOffset = offset + 9. The code reads only the first four of the eight
  bytes (its own comment: "0xff - 8 bytes, but we'll just use 4 for now"): on the
  encoding of \<open>2 ^ 32\<close> it returns the value 0, although the eight bytes hold
  4294967296. The offset is advanced by 9 as claimed.
\<close>

theorem readVarInt_ff_truncates:
  "readVarInt [0xff, 0, 0, 0, 0, 1, 0, 0, 0] 0 = Inr (0, 9)
   \<and> le_nat [0, 0, 0, 0, 1, 0, 0, 0] = 4294967296"
  by (simp add: readVarInt_def byte_at_def readUInt32LE_def readUIntLE_def)

text \<open>
  Claim C7. For every \<open>v\<close> in \<open>{0, 0xfc, 0xfd, 0xffff, 0x10000, 0xffffffff}\<close>,
  reading back at offset 0 the bytes that writeVarInt produces for \<open>v\<close> yields \<open>v\<close>
  and the encoded width: 1 byte below \<open>0xfd\<close>, 3 bytes up to \<open>0xffff\<close>, 5 bytes up
  to \<open>0xffffffff\<close>.
\<close>

theorem varint_roundtrip_boundaries:
  "bindE (writeVarInt 0) (\<lambda>b. readVarInt b 0) = Inr (0, 1)
   \<and> bindE (writeVarInt 0xfc) (\<lambda>b. readVarInt b 0) = Inr (0xfc, 1)
   \<and> bindE (writeVarInt 0xfd) (\<lambda>b. readVarInt b 0) = Inr (0xfd, 3)
   \<and> bindE (writeVarInt 0xffff) (\<lambda>b. readVarInt b 0) = Inr (0xffff, 3)
   \<and> bindE (writeVarInt 0x10000) (\<lambda>b. readVarInt b 0) = Inr (0x10000, 5)
   \<and> bindE (writeVarInt 0xffffffff) (\<lambda>b. readVarInt b 0) = Inr (0xffffffff, 5)"
  by (simp add: readVarInt_def byte_at_def readUInt32LE_def readUInt16LE_def readUIntLE_def
      writeVarInt_def writeUInt16LE_def writeUInt32LE_def le_bytes_4 le_bytes_2)


subsection \<open>Transaction codec\<close>

text \<open>
  Claim C3, as stated: for every syntactically valid transaction hex \<open>x\<close>,
  rebuildTransaction (parseTransaction x) = x. The parser accepts, and consumes
  to the last byte, hex strings that the serializer does not reproduce:
  a count written as the three-byte varint \<open>fd 00 00\<close> comes back as \<open>00\<close>;
  an overwinter-sapling transaction that ends with valueBalance, where the parser
  stops reading, comes back with three more bytes \<open>00 00 00\<close>;
  an upper-case hex digit comes back in lower case.
\<close>

theorem roundtrip_fails_on_accepted_hex:
  "bindE (parseTransaction ''01000000fd00000000000000'') rebuildTransaction
     = Inr ''01000000000000000000''
   \<and> bindE (parseTransaction ''01000000fd00000000000000'') rebuildTransaction
     \<noteq> Inr ''01000000fd00000000000000''
   \<and> bindE (parseTransaction ''0400008085202f89000000000000000000000000000000000000'')
        rebuildTransaction
     = Inr ''0400008085202f89000000000000000000000000000000000000000000''
   \<and> bindE (parseTransaction ''0400008085202f89000000000000000000000000000000000000'')
        rebuildTransaction
     \<noteq> Inr ''0400008085202f89000000000000000000000000000000000000''
   \<and> bindE (parseTransaction ''0100000000000A000000'') rebuildTransaction
     = Inr ''0100000000000a000000''
   \<and> bindE (parseTransaction ''0100000000000A000000'') rebuildTransaction
     \<noteq> Inr ''0100000000000A000000''"
  by (simp add: hex_eval parse_eval rebuild_eval)

text \<open>
  Claim C3, amended: for every well-formed transaction value (32-byte previous
  transaction ids, every field within its wire width), in any of the four
  field-presence combinations, the hex \<open>x\<close> that rebuildTransaction produces is
  parsed by parseTransaction, and serializing the parse result reproduces \<open>x\<close>
  exactly. So the round trip holds on every canonical serialization: lower-case
  digits, minimal varints and, in the overwinter-sapling combination, the three
  empty shielded counts after valueBalance.
\<close>

theorem canonical_roundtrip:
  assumes "wf_tx tx"
  shows "\<exists>x tx'. rebuildTransaction tx = Inr x \<and> parseTransaction x = Inr tx'
           \<and> rebuildTransaction tx' = Inr x"
proof -
  obtain bs tx' n where "rebuild_bytes tx = Inr bs" "parse_from bs = Inr (tx', n)"
    "rebuild_bytes tx' = Inr bs"
    using roundtrip_bytes [OF assms] by blast
  then show ?thesis by (simp add: rebuildTransaction_def parseTransaction_def)
qed

text \<open>The amended claim C3 at an overwinter-sapling value with one input and one output.\<close>

theorem canonical_roundtrip_witness:
  "wf_tx ex_sapling \<and> (\<exists>x tx'. rebuildTransaction ex_sapling = Inr x \<and> parseTransaction x = Inr tx'
           \<and> rebuildTransaction tx' = Inr x)"
proof -
  have h: "wf_tx ex_sapling"
    by (simp add: wf_tx_def wf_input_def wf_output_def u32_def i64_def ex_sapling_def ex_txid_def)
  show ?thesis using h canonical_roundtrip [OF h] by (rule conjI)
qed

text \<open>
  Claim C4. For every transaction value, however its fields were set,
  rebuildTransaction derives field presence from the version and versionGroupId
  alone. It serializes every value whose fields lie within their wire widths
  (on a field outside its width it throws). Whenever it returns, the output is:
  the version; the versionGroupId iff the high bit of the version is set, that
  is, iff the version is negative; the input count, inputs, output count and
  outputs; the lockTime; the expiryHeight iff version \<open>\<ge> 3\<close> or the high bit
  is set; the valueBalance followed by exactly three zero bytes (the empty
  counts of shielded spends, shielded outputs and joinsplits) iff the high bit
  is set and versionGroupId is \<open>0x892f2085\<close>. Nothing else is emitted.
\<close>

theorem rebuild_field_presence:
  "(wf_tx tx \<longrightarrow> (\<exists>x. rebuildTransaction tx = Inr x))
   \<and> (\<forall>x. rebuildTransaction tx = Inr x \<longrightarrow>
        (\<exists>inputCount ins outputCount outs.
           writeVarInt (int (length (inputs tx))) = Inr inputCount
           \<and> rebuild_inputs (inputs tx) = Inr ins
           \<and> writeVarInt (int (length (outputs tx))) = Inr outputCount
           \<and> rebuild_outputs (outputs tx) = Inr outs
           \<and> x = toString_hex (le_bytes 4 (nat (version tx mod 2 ^ 32))
               @ (if version tx < 0 then le_bytes 4 (nat (versionGroupId tx)) else [])
               @ inputCount @ ins @ outputCount @ outs
               @ le_bytes 4 (nat (lockTime tx))
               @ (if version tx \<ge> 3 \<or> version tx < 0
                  then le_bytes 4 (nat (expiryHeight tx)) else [])
               @ (if version tx < 0 \<and> versionGroupId tx = 0x892f2085
                  then le_bytes 8 (nat (valueBalance tx mod 2 ^ 64)) @ [0, 0, 0] else []))))"
proof (intro conjI impI allI)
  assume "wf_tx tx"
  then obtain bs where "rebuild_bytes tx = Inr bs" using rebuild_bytes_ok by blast
  then show "\<exists>x. rebuildTransaction tx = Inr x" by (simp add: rebuildTransaction_def)
next
  fix x assume "rebuildTransaction tx = Inr x"
  then obtain bs where b: "rebuild_bytes tx = Inr bs" and x: "x = toString_hex bs"
    by (auto simp: rebuildTransaction_def bindE_Inr)
  show "\<exists>inputCount ins outputCount outs.
           writeVarInt (int (length (inputs tx))) = Inr inputCount
           \<and> rebuild_inputs (inputs tx) = Inr ins
           \<and> writeVarInt (int (length (outputs tx))) = Inr outputCount
           \<and> rebuild_outputs (outputs tx) = Inr outs
           \<and> x = toString_hex (le_bytes 4 (nat (version tx mod 2 ^ 32))
               @ (if version tx < 0 then le_bytes 4 (nat (versionGroupId tx)) else [])
               @ inputCount @ ins @ outputCount @ outs
               @ le_bytes 4 (nat (lockTime tx))
               @ (if version tx \<ge> 3 \<or> version tx < 0
                  then le_bytes 4 (nat (expiryHeight tx)) else [])
               @ (if version tx < 0 \<and> versionGroupId tx = 0x892f2085
                  then le_bytes 8 (nat (valueBalance tx mod 2 ^ 64)) @ [0, 0, 0] else []))"
    using rebuild_bytes_layout [OF b] x by blast
qed

text \<open>
  Claim C4 at two values. \<open>ex_sapling\<close> has the high bit set and the Sapling
  versionGroupId: it is serialized, and versionGroupId, expiryHeight, valueBalance
  and the three empty counts are all emitted. \<open>ex_mixed\<close> is a version 2 value on
  which a caller had set versionGroupId to the Sapling magic, expiryHeight to 500
  and valueBalance to 7: none of them is emitted.
\<close>

theorem rebuild_field_presence_witness:
  "wf_tx ex_sapling
   \<and> (\<exists>x. rebuildTransaction ex_sapling = Inr x)
   \<and> rebuildTransaction ex_sapling = Inr ex_sapling_hex
   \<and> (\<exists>inputCount ins outputCount outs.
           writeVarInt (int (length (inputs ex_sapling))) = Inr inputCount
           \<and> rebuild_inputs (inputs ex_sapling) = Inr ins
           \<and> writeVarInt (int (length (outputs ex_sapling))) = Inr outputCount
           \<and> rebuild_outputs (outputs ex_sapling) = Inr outs
           \<and> ex_sapling_hex = toString_hex (le_bytes 4 (nat (version ex_sapling mod 2 ^ 32))
               @ (if version ex_sapling < 0 then le_bytes 4 (nat (versionGroupId ex_sapling)) else [])
               @ inputCount @ ins @ outputCount @ outs
               @ le_bytes 4 (nat (lockTime ex_sapling))
               @ (if version ex_sapling \<ge> 3 \<or> version ex_sapling < 0
                  then le_bytes 4 (nat (expiryHeight ex_sapling)) else [])
               @ (if version ex_sapling < 0 \<and> versionGroupId ex_sapling = 0x892f2085
                  then le_bytes 8 (nat (valueBalance ex_sapling mod 2 ^ 64)) @ [0, 0, 0]
                  else [])))
   \<and> version ex_sapling < 0 \<and> versionGroupId ex_sapling = 0x892f2085
   \<and> rebuildTransaction ex_mixed = Inr ''02000000000000000000''
   \<and> (\<exists>inputCount ins outputCount outs.
           writeVarInt (int (length (inputs ex_mixed))) = Inr inputCount
           \<and> rebuild_inputs (inputs ex_mixed) = Inr ins
           \<and> writeVarInt (int (length (outputs ex_mixed))) = Inr outputCount
           \<and> rebuild_outputs (outputs ex_mixed) = Inr outs
           \<and> ''02000000000000000000'' = toString_hex (le_bytes 4 (nat (version ex_mixed mod 2 ^ 32))
               @ (if version ex_mixed < 0 then le_bytes 4 (nat (versionGroupId ex_mixed)) else [])
               @ inputCount @ ins @ outputCount @ outs
               @ le_bytes 4 (nat (lockTime ex_mixed))
               @ (if version ex_mixed \<ge> 3 \<or> version ex_mixed < 0
                  then le_bytes 4 (nat (expiryHeight ex_mixed)) else [])
               @ (if version ex_mixed < 0 \<and> versionGroupId ex_mixed = 0x892f2085
                  then le_bytes 8 (nat (valueBalance ex_mixed mod 2 ^ 64)) @ [0, 0, 0]
                  else [])))"
proof -
  have s: "\<exists>x. rebuildTransaction ex_sapling = Inr x"
    using rebuild_field_presence [of ex_sapling] ex_sapling_wf by blast
  have f: "version ex_sapling < 0 \<and> versionGroupId ex_sapling = 0x892f2085"
    by (simp add: ex_sapling_def)
  show ?thesis
    using ex_sapling_wf s f ex_sapling_rebuild ex_mixed_rebuild
      rebuild_field_presence [of ex_sapling] rebuild_field_presence [of ex_mixed]
    by blast
qed


text \<open>
  Claim C5, as stated, against the code. The 18 bytes of \<open>ex_wide_hex\<close> are a
  version-1 header, an input count in the nine-byte form whose eight bytes hold
  \<open>2 ^ 32\<close>, an output count of 0 and a lock time: they declare \<open>2 ^ 32\<close> inputs,
  far past the end of the buffer. parseTransaction reads only the low four bytes
  of the count, skips the other four and returns a transaction with no input.
  The same buffer without its last byte does make it fail, with a RangeError:
  the parser has no error of its own, and a MalformedTransaction is never
  raised.
\<close>

theorem parse_accepts_wide_count:
  "length (Buffer_from_hex ex_wide_hex) = 18
   \<and> declared_varint (Buffer_from_hex ex_wide_hex) 4 = Some (4294967296, 9)
   \<and> parseTransaction ex_wide_hex
       = Inr \<lparr>version = 1, versionGroupId = 0, inputs = [], outputs = [], lockTime = 0,
              expiryHeight = 0, valueBalance = 0,
              raw = [1, 0, 0, 0, 0xff, 0, 0, 0, 0, 1, 0, 0, 0, 0, 0, 0, 0, 0]\<rparr>
   \<and> parseTransaction ''01000000ff000000000100000000000000'' = Inl RangeError"
proof -
  have b: "Buffer_from_hex ex_wide_hex = [1, 0, 0, 0, 0xff, 0, 0, 0, 0, 1, 0, 0, 0, 0, 0, 0, 0, 0]"
    by (simp add: hex_value_def ex_wide_hex_def)
  have c: "Buffer_from_hex ''01000000ff000000000100000000000000''
           = [1, 0, 0, 0, 0xff, 0, 0, 0, 0, 1, 0, 0, 0, 0, 0, 0, 0]"
    by (simp add: hex_value_def)
  have l: "length (Buffer_from_hex ex_wide_hex) = 18" unfolding b by simp
  have d: "declared_varint (Buffer_from_hex ex_wide_hex) 4 = Some (4294967296, 9)"
    unfolding b by (simp add: declared_varint_def byte_at_def)
  have p: "parseTransaction ex_wide_hex
       = Inr \<lparr>version = 1, versionGroupId = 0, inputs = [], outputs = [], lockTime = 0,
              expiryHeight = 0, valueBalance = 0,
              raw = [1, 0, 0, 0, 0xff, 0, 0, 0, 0, 1, 0, 0, 0, 0, 0, 0, 0, 0]\<rparr>"
    unfolding parseTransaction_def b by (simp add: parse_eval)
  have q: "parseTransaction ''01000000ff000000000100000000000000'' = Inl RangeError"
    unfolding parseTransaction_def c by (simp add: parse_eval)
  from l d p q show ?thesis by (intro conjI)
qed

text \<open>
  Claim C5, amended. Take the structure that the buffer declares as the
  specification lays it out (\<open>declared_extent\<close>): the header with its optional
  version group id, the counted inputs and outputs with their length-prefixed
  scripts, the lock time, the optional expiry height and value balance, every
  length prefix read in full. If, with every length prefix met so far below
  \<open>2 ^ 32\<close>, a field of that structure extends past the end of the buffer,
  parseTransaction fails, and the failure is a RangeError. It fails for no other
  reason: when the whole structure fits, parseTransaction returns a transaction.
  Buffers with a nine-byte length prefix holding \<open>2 ^ 32\<close> or more are left out.
\<close>

theorem parse_fails_past_declared_end:
  "(declared_extent (Buffer_from_hex txHex) = PastEnd \<longrightarrow> parseTransaction txHex = Inl RangeError)
   \<and> (\<forall>n. declared_extent (Buffer_from_hex txHex) = Ends n \<longrightarrow>
          (\<exists>tx. parseTransaction txHex = Inr tx))"
proof (intro conjI impI allI)
  assume e: "declared_extent (Buffer_from_hex txHex) = PastEnd"
  show "parseTransaction txHex = Inl RangeError"
  proof (cases "parse_from (Buffer_from_hex txHex)")
    case (Inl err)
    then show ?thesis
      using parse_from_err [of "Buffer_from_hex txHex" err] by (simp add: parseTransaction_def)
  next
    case (Inr r)
    obtain tx n where "r = (tx, n)" by (cases r)
    then show ?thesis using parse_from_declared [of "Buffer_from_hex txHex" tx n] Inr e by simp
  qed
next
  fix n
  assume "declared_extent (Buffer_from_hex txHex) = Ends n"
  then obtain tx where "parse_from (Buffer_from_hex txHex) = Inr (tx, n)"
    using declared_extent_parse by blast
  then show "\<exists>tx. parseTransaction txHex = Inr tx" by (simp add: parseTransaction_def)
qed

text \<open>
  The amended claim C5 at a one-input transaction of 53 bytes, which is parsed,
  and at the same bytes cut after 43, inside the two-byte script that its length
  prefix declares, which are refused.
\<close>

theorem parse_fails_past_declared_end_witness:
  "declared_extent (Buffer_from_hex ex_truncated_hex) = PastEnd
   \<and> parseTransaction ex_truncated_hex = Inl RangeError
   \<and> declared_extent (Buffer_from_hex ex_hex) = Ends 53
   \<and> (\<exists>tx. parseTransaction ex_hex = Inr tx)"
proof -
  have t: "Buffer_from_hex ex_truncated_hex = take 43 ex_raw"
    by (simp add: hex_value_def ex_raw_def ex_txid_def ex_truncated_hex_def)
  have h: "Buffer_from_hex ex_hex = ex_raw"
    by (simp add: hex_value_def ex_raw_def ex_txid_def ex_hex_def)
  have a: "declared_extent (Buffer_from_hex ex_truncated_hex) = PastEnd"
    unfolding t by (simp add: declared_eval ex_raw_def ex_txid_def)
  have b: "declared_extent (Buffer_from_hex ex_hex) = Ends 53"
    unfolding h by (simp add: declared_eval ex_raw_def ex_txid_def)
  have c: "parseTransaction ex_truncated_hex = Inl RangeError"
    using parse_fails_past_declared_end [of ex_truncated_hex] a by blast
  have d: "\<exists>tx. parseTransaction ex_hex = Inr tx"
    using parse_fails_past_declared_end [of ex_hex] b by blast
  from a c b d show ?thesis by (intro conjI)
qed


subsection \<open>Sighash engine\<close>

text \<open>
  Claim C1. createSighashV4 should hash the pre-image with a personalization of
  exactly 16 bytes: the ASCII bytes of "ZcashSigHash" followed by the 4-byte
  little-endian encoding of CONSENSUS_BRANCH_ID = 0x76b809bb, that is
  \<open>bb 09 b8 76\<close>. The code never uses the constant it declares. It builds the tag
  with \<open>Buffer.from('ZcashSigHash' + '\x19\x1b\xa8\x5b')\<close>: other branch bytes, and
  a string that \<open>Buffer.from\<close> encodes in UTF-8, where the character \<open>\xa8\<close>
  takes the two bytes \<open>c2 a8\<close>. The tag passed to the hash has 17 bytes; the last
  conjunct observes it with a hash stand-in that returns its personalization.
\<close>

theorem sighash_tag_differs_from_branch_id:
  "sighash_personalization
     = [0x5a, 0x63, 0x61, 0x73, 0x68, 0x53, 0x69, 0x67, 0x48, 0x61, 0x73, 0x68,
        0x19, 0x1b, 0xc2, 0xa8, 0x5b]
   \<and> length sighash_personalization = 17
   \<and> Buffer_from_string (js_string ''ZcashSigHash'') @ le_bytes 4 (nat CONSENSUS_BRANCH_ID)
     = [0x5a, 0x63, 0x61, 0x73, 0x68, 0x53, 0x69, 0x67, 0x48, 0x61, 0x73, 0x68,
        0xbb, 0x09, 0xb8, 0x76]
   \<and> createSighashV4 tag_probe ex_tx 0 [] 0 SIGHASH_ALL = Inr (sighash_personalization, [])"
  by (simp add: sighash_eval CONSENSUS_BRANCH_ID_def SIGHASH_ALL_def tag_probe_def stub_libs_def
      ex_tx_def ex_txid_def)

text \<open>
  Claim C2, as stated: when the personalized hash primitive is unavailable, the
  sighash engine fails with an error rather than returning a digest computed by
  a weaker hash. With \<open>blake2b\<close> unavailable the engine returns normally: the
  digest is the output of the SHA-256 stand-in (bytes \<open>0a\<close>; the BLAKE2b stand-in
  would give \<open>0b\<close>), and four warnings were logged.
\<close>

theorem sighash_falls_back_to_sha256:
  "createSighashV4 no_blake2b ex_tx 0 [] 0 SIGHASH_ALL
     = Inr (replicate 32 0x0a,
            [fallback_warning, fallback_warning, fallback_warning, fallback_warning])"
  by (simp add: sighash_eval SIGHASH_ALL_def no_blake2b_def stub_libs_def ex_tx_def ex_txid_def)

text \<open>
  Claim C2, amended. The sighash engine does not fail because the personalized
  hash primitive is unavailable or rejects its arguments. Each of its four hash
  calls goes through \<open>blake2b256\<close>: when the primitive returns, the call gives the
  primitive's digest and logs nothing; when it does not, the call logs the warning
  "[Signer] BLAKE2b not available, using SHA256 fallback" and gives the plain
  SHA-256 digest of its data. On a well-formed transaction, an input index in
  range and arguments within their wire widths, the engine returns what
  \<open>blake2b256\<close> gives, under the sighash tag, on the pre-image that the code
  assembles: version, versionGroupId, the \<open>blake2b256\<close> digests of the prevouts,
  the sequences and the outputs, three zero hashes, lockTime, expiryHeight, a zero
  value balance, the hash type, and the outpoint, script code, amount and sequence
  of the input being signed. With it come the warnings of the calls that fell
  back, in call order.
\<close>

theorem sighash_survives_fallback:
  assumes wf: "wf_tx tx" and i: "inputIndex < length (inputs tx)"
    and sc: "u32 (int (length scriptCode))" and am: "i64 amount" and ht: "u32 hashType"
  shows "(\<forall>data personalization.
            blake2b L data personalization = None \<longrightarrow>
            blake2b256 L data personalization = (sha256 L data, [fallback_warning]))
         \<and> (\<forall>data personalization digest.
            blake2b L data personalization = Some digest \<longrightarrow>
            blake2b256 L data personalization = (digest, []))
         \<and> (\<exists>prevouts seqs outs scriptLen.
            prevoutsData (inputs tx) = Inr prevouts
            \<and> sequenceData (inputs tx) = Inr seqs
            \<and> outputsData (outputs tx) = Inr outs
            \<and> writeVarInt (int (length scriptCode)) = Inr scriptLen
            \<and> (let h1 = blake2b256 L prevouts (Buffer_from_string (js_string ''ZcashPrevoutHash''));
                     h2 = blake2b256 L seqs (Buffer_from_string (js_string ''ZcashSequencHash''));
                     h3 = blake2b256 L outs (Buffer_from_string (js_string ''ZcashOutputsHash''));
                     input = inputs tx ! inputIndex;
                     preimage = le_bytes 4 (nat (version tx mod 2 ^ 32))
                       @ le_bytes 4 (nat (versionGroupId tx))
                       @ fst h1 @ fst h2 @ fst h3
                       @ replicate 32 0 @ replicate 32 0 @ replicate 32 0
                       @ le_bytes 4 (nat (lockTime tx)) @ le_bytes 4 (nat (expiryHeight tx))
                       @ replicate 8 0 @ le_bytes 4 (nat hashType)
                       @ txid input @ le_bytes 4 (nat (vout input)) @ scriptLen @ scriptCode
                       @ le_bytes 8 (nat (amount mod 2 ^ 64)) @ le_bytes 4 (nat (sequence input));
                     h4 = blake2b256 L preimage sighash_personalization
                 in createSighashV4 L tx inputIndex scriptCode amount hashType
                      = Inr (fst h4, snd h1 @ snd h2 @ snd h3 @ snd h4)))"
proof -
  have w: "- (2 ^ 31) \<le> version tx" "version tx < 2 ^ 31" "u32 (versionGroupId tx)"
    "\<forall>i \<in> set (inputs tx). wf_input i" "\<forall>out \<in> set (outputs tx). wf_output out"
    "u32 (lockTime tx)" "u32 (expiryHeight tx)"
    using wf by (simp_all add: wf_tx_def)
  have wi: "u32 (vout (inputs tx ! inputIndex))" "u32 (sequence (inputs tx ! inputIndex))"
    using w(4) i by (simp_all add: wf_input_def)
  obtain p where p: "prevoutsData (inputs tx) = Inr p" using prevoutsData_ok [OF w(4)] by blast
  obtain q where q: "sequenceData (inputs tx) = Inr q" using sequenceData_ok [OF w(4)] by blast
  obtain od where od: "outputsData (outputs tx) = Inr od" using outputsData_ok [OF w(5)] by blast
  obtain k where k: "writeVarInt (int (length scriptCode)) = Inr k"
    using writeVarInt_ok [OF sc] by blast
  have e: "createSighashV4 L tx inputIndex scriptCode amount hashType
     = (let h1 = blake2b256 L p (Buffer_from_string (js_string ''ZcashPrevoutHash''));
            h2 = blake2b256 L q (Buffer_from_string (js_string ''ZcashSequencHash''));
            h3 = blake2b256 L od (Buffer_from_string (js_string ''ZcashOutputsHash''));
            input = inputs tx ! inputIndex;
            preimage = le_bytes 4 (nat (version tx mod 2 ^ 32))
              @ le_bytes 4 (nat (versionGroupId tx))
              @ fst h1 @ fst h2 @ fst h3
              @ replicate 32 0 @ replicate 32 0 @ replicate 32 0
              @ le_bytes 4 (nat (lockTime tx)) @ le_bytes 4 (nat (expiryHeight tx))
              @ replicate 8 0 @ le_bytes 4 (nat hashType)
              @ txid input @ le_bytes 4 (nat (vout input)) @ k @ scriptCode
              @ le_bytes 8 (nat (amount mod 2 ^ 64)) @ le_bytes 4 (nat (sequence input));
            h4 = blake2b256 L preimage sighash_personalization
        in Inr (fst h4, snd h1 @ snd h2 @ snd h3 @ snd h4))"
    unfolding createSighashV4_def
    by (simp only: p q od k i if_True bindE_Inr_simp writeInt32LE_bytes [OF w(1,2)]
        writeUInt32LE_bytes [OF w(3)] writeUInt32LE_bytes [OF w(6)] writeUInt32LE_bytes [OF w(7)]
        writeUInt32LE_bytes [OF ht] writeUInt32LE_bytes [OF wi(1)] writeUInt32LE_bytes [OF wi(2)]
        writeBigInt64LE_bytes [OF am] Let_def case_prod_beta)
  have a: "\<forall>data personalization.
            blake2b L data personalization = None \<longrightarrow>
            blake2b256 L data personalization = (sha256 L data, [fallback_warning])"
    by (simp add: blake2b256_def)
  have b: "\<forall>data personalization digest.
            blake2b L data personalization = Some digest \<longrightarrow>
            blake2b256 L data personalization = (digest, [])"
    by (simp add: blake2b256_def)
  have c: "\<exists>prevouts seqs outs scriptLen.
            prevoutsData (inputs tx) = Inr prevouts
            \<and> sequenceData (inputs tx) = Inr seqs
            \<and> outputsData (outputs tx) = Inr outs
            \<and> writeVarInt (int (length scriptCode)) = Inr scriptLen
            \<and> (let h1 = blake2b256 L prevouts (Buffer_from_string (js_string ''ZcashPrevoutHash''));
                     h2 = blake2b256 L seqs (Buffer_from_string (js_string ''ZcashSequencHash''));
                     h3 = blake2b256 L outs (Buffer_from_string (js_string ''ZcashOutputsHash''));
                     input = inputs tx ! inputIndex;
                     preimage = le_bytes 4 (nat (version tx mod 2 ^ 32))
                       @ le_bytes 4 (nat (versionGroupId tx))
                       @ fst h1 @ fst h2 @ fst h3
                       @ replicate 32 0 @ replicate 32 0 @ replicate 32 0
                       @ le_bytes 4 (nat (lockTime tx)) @ le_bytes 4 (nat (expiryHeight tx))
                       @ replicate 8 0 @ le_bytes 4 (nat hashType)
                       @ txid input @ le_bytes 4 (nat (vout input)) @ scriptLen @ scriptCode
                       @ le_bytes 8 (nat (amount mod 2 ^ 64)) @ le_bytes 4 (nat (sequence input));
                     h4 = blake2b256 L preimage sighash_personalization
                 in createSighashV4 L tx inputIndex scriptCode amount hashType
                      = Inr (fst h4, snd h1 @ snd h2 @ snd h3 @ snd h4))"
    by (rule exI [of _ p], rule exI [of _ q], rule exI [of _ od], rule exI [of _ k])
      (simp only: p q od k e Let_def simp_thms)
  from a b c show ?thesis by (intro conjI)
qed

text \<open>
  The amended claim C2 at the one-input transaction \<open>ex_tx\<close>, with a \<open>blake2b\<close>
  that rejects every personalization that is not 16 bytes long. The three inner
  calls, with 16-byte tags, use it; the call on the pre-image, whose tag has 17
  bytes, falls back: the digest is that of the SHA-256 stand-in, and one warning
  is logged.
\<close>

theorem sighash_survives_fallback_witness:
  "wf_tx ex_tx \<and> 0 < length (inputs ex_tx) \<and> u32 (int (length ([] :: bytes)))
   \<and> i64 0 \<and> u32 SIGHASH_ALL
   \<and> (\<exists>prevouts seqs outs scriptLen.
            prevoutsData (inputs ex_tx) = Inr prevouts
            \<and> sequenceData (inputs ex_tx) = Inr seqs
            \<and> outputsData (outputs ex_tx) = Inr outs
            \<and> writeVarInt (int (length ([] :: bytes))) = Inr scriptLen
            \<and> (let h1 = blake2b256 strict_blake2b prevouts (Buffer_from_string (js_string ''ZcashPrevoutHash''));
                     h2 = blake2b256 strict_blake2b seqs (Buffer_from_string (js_string ''ZcashSequencHash''));
                     h3 = blake2b256 strict_blake2b outs (Buffer_from_string (js_string ''ZcashOutputsHash''));
                     input = inputs ex_tx ! 0;
                     preimage = le_bytes 4 (nat (version ex_tx mod 2 ^ 32))
                       @ le_bytes 4 (nat (versionGroupId ex_tx))
                       @ fst h1 @ fst h2 @ fst h3
                       @ replicate 32 0 @ replicate 32 0 @ replicate 32 0
                       @ le_bytes 4 (nat (lockTime ex_tx)) @ le_bytes 4 (nat (expiryHeight ex_tx))
                       @ replicate 8 0 @ le_bytes 4 (nat SIGHASH_ALL)
                       @ txid input @ le_bytes 4 (nat (vout input)) @ scriptLen @ []
                       @ le_bytes 8 (nat (0 mod 2 ^ 64)) @ le_bytes 4 (nat (sequence input));
                     h4 = blake2b256 strict_blake2b preimage sighash_personalization
                 in createSighashV4 strict_blake2b ex_tx 0 [] 0 SIGHASH_ALL
                      = Inr (fst h4, snd h1 @ snd h2 @ snd h3 @ snd h4)))
   \<and> createSighashV4 strict_blake2b ex_tx 0 [] 0 SIGHASH_ALL
       = Inr (replicate 32 0x0a, [fallback_warning])
   \<and> blake2b strict_blake2b [] sighash_personalization = None
   \<and> blake2b256 strict_blake2b [] sighash_personalization
       = (sha256 strict_blake2b [], [fallback_warning])
   \<and> blake2b strict_blake2b [] (Buffer_from_string (js_string ''ZcashPrevoutHash''))
       = Some (replicate 32 0x0b)
   \<and> blake2b256 strict_blake2b [] (Buffer_from_string (js_string ''ZcashPrevoutHash''))
       = (replicate 32 0x0b, [])"
proof -
  have wf: "wf_tx ex_tx"
    by (simp add: wf_tx_def wf_input_def u32_def i64_def ex_tx_def ex_txid_def)
  have i: "0 < length (inputs ex_tx)" by (simp add: ex_tx_def)
  have sc: "u32 (int (length ([] :: bytes)))" by (simp add: u32_def)
  have am: "i64 0" by (simp add: i64_def)
  have ht: "u32 SIGHASH_ALL" by (simp add: u32_def SIGHASH_ALL_def)
  have ev: "createSighashV4 strict_blake2b ex_tx 0 [] 0 SIGHASH_ALL
       = Inr (replicate 32 0x0a, [fallback_warning])"
    by (simp add: sighash_eval SIGHASH_ALL_def strict_blake2b_def stub_libs_def ex_tx_def
        ex_txid_def)
  note t = sighash_survives_fallback [OF wf i sc am ht, of strict_blake2b]
  have n1: "blake2b strict_blake2b [] sighash_personalization = None"
    by (simp add: strict_blake2b_def stub_libs_def sighash_personalization_def
        Buffer_from_string_def js_string_def utf8_unit_def)
  have n2: "blake2b256 strict_blake2b [] sighash_personalization
       = (sha256 strict_blake2b [], [fallback_warning])"
    using t n1 by blast
  have s1: "blake2b strict_blake2b [] (Buffer_from_string (js_string ''ZcashPrevoutHash''))
       = Some (replicate 32 0x0b)"
    by (simp add: strict_blake2b_def stub_libs_def Buffer_from_string_def js_string_def
        utf8_unit_def)
  have s2: "blake2b256 strict_blake2b [] (Buffer_from_string (js_string ''ZcashPrevoutHash''))
       = (replicate 32 0x0b, [])"
    using t s1 by blast
  show ?thesis
    by (rule conjI [OF wf conjI [OF i conjI [OF sc conjI [OF am conjI [OF ht
        conjI [OF t [THEN conjunct2, THEN conjunct2]
        conjI [OF ev conjI [OF n1 conjI [OF n2 conjI [OF s1 s2]]]]]]]]]])
qed


subsection \<open>DER signatures\<close>

text \<open>
  Claim C8. For every pair of 32-byte values \<open>r\<close> and \<open>s\<close>, createDerSignature
  returns \<open>0x30, totalLen, 0x02, rLen, r', 0x02, sLen, s'\<close>, where \<open>r'\<close> and \<open>s'\<close>
  are the minimal encodings of \<open>r\<close> and \<open>s\<close> (leading zero bytes stripped down to
  the shortest form whose first byte has a clear top bit, one zero byte in front
  when the first remaining byte has its top bit set), \<open>rLen\<close> and \<open>sLen\<close> are their
  lengths and \<open>totalLen\<close> is \<open>4 + rLen + sLen\<close>, at most 70, so that each length
  fits the single byte that holds it.
\<close>

theorem der_signature_minimal:
  assumes "length r = 32" "length s = 32"
  shows "createDerSignature r s =
           [0x30, of_nat (4 + length (minimal_der_int r) + length (minimal_der_int s)),
            0x02, of_nat (length (minimal_der_int r))] @ minimal_der_int r
           @ [0x02, of_nat (length (minimal_der_int s))] @ minimal_der_int s
         \<and> 4 + length (minimal_der_int r) + length (minimal_der_int s) \<le> 70"
proof -
  have r: "r \<noteq> []" and s: "s \<noteq> []" using assms by auto
  have "4 + length (minimal_der_int r) + length (minimal_der_int s) \<le> 70"
    using length_minimal_der_int [of r] length_minimal_der_int [of s] assms by simp
  then show ?thesis
    by (simp add: createDerSignature_def Let_def der_pad_strip [OF r] der_pad_strip [OF s])
qed


text \<open>
  Claim C8 at an \<open>r\<close> whose first byte is \<open>0x80\<close> (one zero byte is put in front)
  and an \<open>s\<close> that starts \<open>00 00 7f\<close> (both zero bytes are stripped).
\<close>

theorem der_signature_minimal_witness:
  "length ex_r = 32 \<and> length ex_s = 32
   \<and> createDerSignature ex_r ex_s =
           [0x30, of_nat (4 + length (minimal_der_int ex_r) + length (minimal_der_int ex_s)),
            0x02, of_nat (length (minimal_der_int ex_r))] @ minimal_der_int ex_r
           @ [0x02, of_nat (length (minimal_der_int ex_s))] @ minimal_der_int ex_s
   \<and> 4 + length (minimal_der_int ex_r) + length (minimal_der_int ex_s) \<le> 70
   \<and> minimal_der_int ex_r = 0x00 # ex_r
   \<and> minimal_der_int ex_s = drop 2 ex_s"
proof -
  have r: "length ex_r = 32" by (simp add: ex_r_def)
  have s: "length ex_s = 32" by (simp add: ex_s_def)
  have "minimal_der_int ex_r = 0x00 # ex_r"
    by (simp add: minimal_der_int_def ex_r_def)
  moreover have "minimal_der_int ex_s = drop 2 ex_s"
    by (simp add: minimal_der_int_def ex_s_def)
  ultimately show ?thesis using r s der_signature_minimal [OF r s] by blast
qed


subsection \<open>Signing\<close>

text \<open>
  Claim C9. Whenever signInput succeeds on a transaction hex that parses, the
  index is in range and the returned hex parses to the transaction parsed from
  the input hex with one change: the unlocking script of input \<open>i\<close>. The version,
  versionGroupId, lockTime, expiryHeight, valueBalance, every output, every other
  input, and the previous txid, output index and sequence of input \<open>i\<close> are the
  same. (The field \<open>raw\<close> holds the buffer that was parsed, as in the source.)
\<close>

theorem signInput_changes_one_script:
  assumes s: "signInput L wif txHex i prevScriptPubKey amount = Inr (y, log)"
    and p: "parseTransaction txHex = Inr tx"
  shows "i < length (inputs tx)
         \<and> (\<exists>sc. parseTransaction y
                    = Inr (tx\<lparr>inputs := (inputs tx)[i := (inputs tx ! i)\<lparr>scriptSig := sc\<rparr>],
                             raw := Buffer_from_hex y\<rparr>))"
proof -
  obtain n where pf: "parse_from (Buffer_from_hex txHex) = Inr (tx, n)"
    using p by (auto simp: parseTransaction_def bindE_Inr)
  obtain sc where i: "i < length (inputs tx)"
    and r: "rebuildTransaction (tx\<lparr>inputs := (inputs tx)[i := (inputs tx ! i)\<lparr>scriptSig := sc\<rparr>]\<rparr>)
              = Inr y"
    using signInput_inversion [OF s p] by blast
  show ?thesis using i parse_of_rebuilt [OF pf i r] by blast
qed


text \<open>
  Claim C9 at the one-input transaction \<open>ex_hex\<close>, signed with the stand-ins for
  the imported packages.
\<close>

theorem signInput_changes_one_script_witness:
  "signInput stub_libs ''wif'' ex_hex 0 ''76a9'' 1000 = Inr (ex_signed_hex, [])
   \<and> parseTransaction ex_hex = Inr ex_tx
   \<and> 0 < length (inputs ex_tx)
   \<and> (\<exists>sc. parseTransaction ex_signed_hex
              = Inr (ex_tx\<lparr>inputs := (inputs ex_tx)[0 := (inputs ex_tx ! 0)\<lparr>scriptSig := sc\<rparr>],
                          raw := Buffer_from_hex ex_signed_hex\<rparr>))"
  using ex_sign ex_parse signInput_changes_one_script [OF ex_sign ex_parse] by blast


subsection \<open>Keys\<close>

text \<open>
  Claim C10. Provided \<open>bs58check.decode\<close> inverts \<open>bs58check.encode\<close>, WIF
  construction and decoding are mutually inverse: for every 32-byte private key
  \<open>k\<close>, the string that generateWif builds from the prefix \<open>0xbc\<close>, \<open>k\<close> and the
  compression flag \<open>0x01\<close> decodes with wifToPrivateKey to exactly \<open>k\<close>, and
  isCompressedWif returns true on it; the string built from \<open>0xbc\<close> and \<open>k\<close>
  alone decodes to exactly \<open>k\<close>, and isCompressedWif returns false on it.
\<close>

theorem wif_roundtrip:
  assumes inv: "\<forall>payload. bs58check_decode L (bs58check_encode L payload) = Inr payload"
    and k: "length k = 32"
  shows "wifToPrivateKey L (generateWif L k True) = Inr k
         \<and> isCompressedWif L (generateWif L k True) = Inr True
         \<and> wifToPrivateKey L (generateWif L k False) = Inr k
         \<and> isCompressedWif L (generateWif L k False) = Inr False"
proof -
  have a: "wifToPrivateKey L (generateWif L k True) = Inr k"
    using inv k by (simp add: wifToPrivateKey_def generateWif_def slice_buf_def)
  have b: "isCompressedWif L (generateWif L k True) = Inr True"
    using inv k by (simp add: isCompressedWif_def generateWif_def byte_at_def nth_append)
  have c: "wifToPrivateKey L (generateWif L k False) = Inr k"
    using inv k by (simp add: wifToPrivateKey_def generateWif_def)
  have d: "isCompressedWif L (generateWif L k False) = Inr False"
    using inv k by (simp add: isCompressedWif_def generateWif_def)
  from a b c d show ?thesis by simp
qed


text \<open>
  Claim C10 with the Base58Check model as the package, which decodes what it
  encodes, at a key of 32 bytes \<open>aa\<close>.
\<close>

theorem wif_roundtrip_witness:
  "(\<forall>payload. bs58check_decode base58_libs (bs58check_encode base58_libs payload) = Inr payload)
   \<and> length ex_txid = 32
   \<and> wifToPrivateKey base58_libs (generateWif base58_libs ex_txid True) = Inr ex_txid
   \<and> isCompressedWif base58_libs (generateWif base58_libs ex_txid True) = Inr True
   \<and> wifToPrivateKey base58_libs (generateWif base58_libs ex_txid False) = Inr ex_txid
   \<and> isCompressedWif base58_libs (generateWif base58_libs ex_txid False) = Inr False"
proof -
  have k: "length ex_txid = 32" by (simp add: ex_txid_def)
  show ?thesis
    using base58_libs_inverse k wif_roundtrip [OF base58_libs_inverse k] by blast
qed


end
